theory Spec2Isabelle
  imports Main "HOL-Library.Sublist"
begin

section \<open>Python values\<close>

text \<open>
  A Python \<open>str\<close> is a sequence of Unicode code points; it is modelled as the list of
  their numbers, and a \<open>bytes\<close> object as the list of its byte values. \<open>S\<close> turns an
  ASCII literal into such a list.
\<close>

type_synonym pystr = "nat list"

definition S :: "string \<Rightarrow> pystr" where
  "S cs = map of_char cs"

abbreviation ch :: "char \<Rightarrow> nat" where
  "ch c \<equiv> of_char c"

text \<open>
  Exceptions are values. \<open>Raised msg\<close> stands for any \<open>Exception\<close> that a fetch worker
  raises (transport error, HTTP status, parser failure).
\<close>

datatype exn = ValueError | UnicodeEncodeError | KeyError | Raised pystr

section \<open>The standard library functions called by \<open>normalize_url\<close>\<close>

text \<open>
  \<open>normalize_url\<close> is a composition of \<open>urlparse\<close>, \<open>parse_qsl\<close>, \<open>urlencode\<close> and
  \<open>urlunparse\<close> of CPython's \<open>urllib.parse\<close>. They are transcribed here from
  \<open>Lib/urllib/parse.py\<close> of CPython 3.11 for \<open>str\<close> arguments and the keyword arguments
  the repository passes. Two things that module imports are taken as parameters:
  \<open>ipaddress.ip_address\<close> (whether it accepts a bracketed host as an IPv6 address) and
  \<open>unicodedata.normalize('NFKC', _)\<close>.
\<close>

record stdlib =
  ip_address_v6 :: "pystr \<Rightarrow> bool"
  nfkc :: "pystr \<Rightarrow> pystr"

subsection \<open>String helpers\<close>

text \<open>\<open>s.split(c, 1)\<close> for a character \<open>c\<close> that occurs in \<open>s\<close>; also \<open>s[:i], s[i+1:]\<close>
  for \<open>i = s.find(c)\<close>.\<close>

definition before :: "nat \<Rightarrow> pystr \<Rightarrow> pystr" where
  "before c s = takeWhile (\<lambda>x. x \<noteq> c) s"

definition after :: "nat \<Rightarrow> pystr \<Rightarrow> pystr" where
  "after c s = drop 1 (dropWhile (\<lambda>x. x \<noteq> c) s)"

text \<open>\<open>s.split(c)\<close> for a one-character separator.\<close>

fun split_on :: "nat \<Rightarrow> pystr \<Rightarrow> pystr list" where
  "split_on c [] = [[]]"
| "split_on c (x # xs) =
     (if x = c then [] # split_on c xs
      else (case split_on c xs of [] \<Rightarrow> [[x]] | y # ys \<Rightarrow> (x # y) # ys))"

text \<open>\<open>sep.join(xs)\<close>.\<close>

fun join :: "pystr \<Rightarrow> pystr list \<Rightarrow> pystr" where
  "join sep [] = []"
| "join sep [x] = x"
| "join sep (x # y # ys) = x @ sep @ join sep (y # ys)"

definition is_upper :: "nat \<Rightarrow> bool" where
  "is_upper c \<longleftrightarrow> 65 \<le> c \<and> c \<le> 90"

definition is_lower :: "nat \<Rightarrow> bool" where
  "is_lower c \<longleftrightarrow> 97 \<le> c \<and> c \<le> 122"

definition is_digit :: "nat \<Rightarrow> bool" where
  "is_digit c \<longleftrightarrow> 48 \<le> c \<and> c \<le> 57"

text \<open>\<open>c.isascii() and c.isalpha()\<close>.\<close>

definition is_ascii_alpha :: "nat \<Rightarrow> bool" where
  "is_ascii_alpha c \<longleftrightarrow> is_upper c \<or> is_lower c"

text \<open>\<open>str.lower\<close> on ASCII text (it is only applied to scheme characters).\<close>

definition lower :: "pystr \<Rightarrow> pystr" where
  "lower s = map (\<lambda>c. if is_upper c then c + 32 else c) s"

subsection \<open>Module constants\<close>

definition uses_netloc :: "pystr list" where
  "uses_netloc = map S ['''', ''ftp'', ''http'', ''gopher'', ''nntp'', ''telnet'',
     ''imap'', ''wais'', ''file'', ''mms'', ''https'', ''shttp'',
     ''snews'', ''prospero'', ''rtsp'', ''rtsps'', ''rtspu'', ''rsync'',
     ''svn'', ''svn+ssh'', ''sftp'', ''nfs'', ''git'', ''git+ssh'',
     ''ws'', ''wss'']"

definition uses_params :: "pystr list" where
  "uses_params = map S ['''', ''ftp'', ''hdl'', ''prospero'', ''http'', ''imap'',
     ''https'', ''shttp'', ''rtsp'', ''rtsps'', ''rtspu'', ''sip'',
     ''sips'', ''mms'', ''sftp'', ''tel'']"

text \<open>\<open>c in scheme_chars\<close>: letters, digits and \<open>+-.\<close>\<close>

definition scheme_char :: "nat \<Rightarrow> bool" where
  "scheme_char c \<longleftrightarrow>
     is_lower c \<or> is_upper c \<or> is_digit c \<or> c = ch CHR ''+'' \<or> c = ch CHR ''-'' \<or> c = ch CHR ''.''"

text \<open>\<open>c in _WHATWG_C0_CONTROL_OR_SPACE\<close>: the code points 0 to 32.\<close>

definition c0_control_or_space :: "nat \<Rightarrow> bool" where
  "c0_control_or_space c \<longleftrightarrow> c \<le> 32"

text \<open>\<open>c in _UNSAFE_URL_BYTES_TO_REMOVE\<close>: tab, carriage return, newline.\<close>

definition unsafe_url_byte :: "nat \<Rightarrow> bool" where
  "unsafe_url_byte c \<longleftrightarrow> c = 9 \<or> c = 13 \<or> c = 10"

text \<open>\<open>c in _hexdig\<close> and the value of a hexadecimal digit.\<close>

definition is_hexdig :: "nat \<Rightarrow> bool" where
  "is_hexdig c \<longleftrightarrow> is_digit c \<or> (65 \<le> c \<and> c \<le> 70) \<or> (97 \<le> c \<and> c \<le> 102)"

definition hexval :: "nat \<Rightarrow> nat" where
  "hexval c = (if is_digit c then c - 48 else if c \<le> 70 then c - 55 else c - 87)"

text \<open>The digit that \<open>'%{:02X}'.format\<close> prints for a value below 16.\<close>

definition hexdigit :: "nat \<Rightarrow> nat" where
  "hexdigit d = (if d < 10 then 48 + d else 55 + d)"

text \<open>\<open>b in _ALWAYS_SAFE\<close>: letters, digits and \<open>_.-~\<close>\<close>

definition always_safe :: "nat \<Rightarrow> bool" where
  "always_safe b \<longleftrightarrow>
     is_upper b \<or> is_lower b \<or> is_digit b \<or> b = ch CHR ''_'' \<or> b = ch CHR ''.''
       \<or> b = ch CHR ''-'' \<or> b = ch CHR ''~''"

subsection \<open>The UTF-8 codec\<close>

text \<open>
  \<open>str.encode('utf-8', 'strict')\<close>: a lone surrogate raises \<open>UnicodeEncodeError\<close>. A
  number from 0x110000 on is no code point of a Python \<open>str\<close>; the model rejects it the
  same way.
\<close>

definition utf8_encode_char :: "nat \<Rightarrow> exn + nat list" where
  "utf8_encode_char c =
     (if c < 0x80 then Inr [c]
      else if c < 0x800 then Inr [0xC0 + c div 64, 0x80 + c mod 64]
      else if 0xD800 \<le> c \<and> c \<le> 0xDFFF then Inl UnicodeEncodeError
      else if c < 0x10000 then
        Inr [0xE0 + c div 4096, 0x80 + (c div 64) mod 64, 0x80 + c mod 64]
      else if c < 0x110000 then
        Inr [0xF0 + c div 262144, 0x80 + (c div 4096) mod 64,
             0x80 + (c div 64) mod 64, 0x80 + c mod 64]
      else Inl UnicodeEncodeError)"

fun utf8_encode :: "pystr \<Rightarrow> exn + nat list" where
  "utf8_encode [] = Inr []"
| "utf8_encode (c # cs) =
     (case utf8_encode_char c of
        Inl e \<Rightarrow> Inl e
      | Inr bs \<Rightarrow> (case utf8_encode cs of Inl e \<Rightarrow> Inl e | Inr r \<Rightarrow> Inr (bs @ r)))"

definition is_cont :: "nat \<Rightarrow> bool" where
  "is_cont b \<longleftrightarrow> 0x80 \<le> b \<and> b < 0xC0"

text \<open>The second byte a three-byte and a four-byte lead admits.\<close>

definition second3 :: "nat \<Rightarrow> nat \<Rightarrow> bool" where
  "second3 b b1 \<longleftrightarrow>
     is_cont b1 \<and> \<not> (if b1 < 0xA0 then b = 0xE0 else b = 0xED)"

definition second4 :: "nat \<Rightarrow> nat \<Rightarrow> bool" where
  "second4 b b1 \<longleftrightarrow>
     is_cont b1 \<and> \<not> (if b1 < 0x90 then b = 0xF0 else b = 0xF4)"

text \<open>
  \<open>bytes.decode('utf-8', 'replace')\<close>: every ill-formed part (an invalid start byte, a
  lead byte with the bytes of its sequence that are valid so far, a sequence cut off by
  the end of the data) becomes one U+FFFD.
\<close>

fun utf8_decode :: "nat list \<Rightarrow> pystr" where
  "utf8_decode [] = []"
| "utf8_decode (b # bs) =
     (if b < 0x80 then b # utf8_decode bs
      else if 0xC2 \<le> b \<and> b \<le> 0xDF then
        (case bs of
           [] \<Rightarrow> [0xFFFD]
         | b1 # r1 \<Rightarrow>
             if is_cont b1 then ((b - 0xC0) * 64 + (b1 - 0x80)) # utf8_decode r1
             else 0xFFFD # utf8_decode (b1 # r1))
      else if 0xE0 \<le> b \<and> b \<le> 0xEF then
        (case bs of
           [] \<Rightarrow> [0xFFFD]
         | b1 # r1 \<Rightarrow>
             if \<not> second3 b b1 then 0xFFFD # utf8_decode (b1 # r1)
             else (case r1 of
                [] \<Rightarrow> [0xFFFD]
              | b2 # r2 \<Rightarrow>
                  if is_cont b2
                  then ((b - 0xE0) * 4096 + (b1 - 0x80) * 64 + (b2 - 0x80)) # utf8_decode r2
                  else 0xFFFD # utf8_decode (b2 # r2)))
      else if 0xF0 \<le> b \<and> b \<le> 0xF4 then
        (case bs of
           [] \<Rightarrow> [0xFFFD]
         | b1 # r1 \<Rightarrow>
             if \<not> second4 b b1 then 0xFFFD # utf8_decode (b1 # r1)
             else (case r1 of
                [] \<Rightarrow> [0xFFFD]
              | b2 # r2 \<Rightarrow>
                  if \<not> is_cont b2 then 0xFFFD # utf8_decode (b2 # r2)
                  else (case r2 of
                     [] \<Rightarrow> [0xFFFD]
                   | b3 # r3 \<Rightarrow>
                       if is_cont b3
                       then ((b - 0xF0) * 262144 + (b1 - 0x80) * 4096
                               + (b2 - 0x80) * 64 + (b3 - 0x80)) # utf8_decode r3
                       else 0xFFFD # utf8_decode (b3 # r3))))
      else 0xFFFD # utf8_decode bs)"

subsection \<open>Percent quoting\<close>

text \<open>
  \<open>unquote_to_bytes\<close> on an ASCII string: the source splits at \<open>%\<close> and replaces the
  first two characters of each later piece when both are hexadecimal digits, which is to
  replace every \<open>%\<close> that two hexadecimal digits follow.
\<close>

fun unquote_to_bytes :: "pystr \<Rightarrow> nat list" where
  "unquote_to_bytes (p # a # b # cs) =
     (if p = ch CHR ''%'' \<and> is_hexdig a \<and> is_hexdig b
      then (16 * hexval a + hexval b) # unquote_to_bytes cs
      else p # unquote_to_bytes (a # b # cs))"
| "unquote_to_bytes cs = cs"

text \<open>
  \<open>unquote\<close>: \<open>_asciire.split\<close> cuts the string into its maximal ASCII runs and the
  text between them; every run is unquoted to bytes and decoded, the rest is kept.
\<close>

function unquote_runs :: "pystr \<Rightarrow> pystr" where
  "unquote_runs [] = []"
| "unquote_runs (c # cs) =
     (if c < 128
      then utf8_decode (unquote_to_bytes (takeWhile (\<lambda>x. x < 128) (c # cs)))
             @ unquote_runs (dropWhile (\<lambda>x. x < 128) cs)
      else c # unquote_runs cs)"
  by pat_completeness auto
termination
  by (relation "measure length") (auto simp: length_dropWhile_le less_Suc_eq_le)

definition unquote :: "pystr \<Rightarrow> pystr" where
  "unquote s = (if ch CHR ''%'' \<notin> set s then s else unquote_runs s)"

definition unquote_plus :: "pystr \<Rightarrow> pystr" where
  "unquote_plus s = unquote (map (\<lambda>c. if c = ch CHR ''+'' then ch CHR '' '' else c) s)"

text \<open>\<open>_Quoter.__missing__\<close>: one byte, kept when safe and \<open>%XX\<close> otherwise.\<close>

definition quoter :: "pystr \<Rightarrow> nat \<Rightarrow> pystr" where
  "quoter safe b =
     (if always_safe b \<or> b \<in> set safe then [b]
      else [ch CHR ''%'', hexdigit (b div 16), hexdigit (b mod 16)])"

text \<open>\<open>quote_from_bytes\<close>; its shortcut for all-safe input returns what the general
  case computes.\<close>

definition quote_from_bytes :: "nat list \<Rightarrow> pystr \<Rightarrow> pystr" where
  "quote_from_bytes bs safe = concat (map (quoter safe) bs)"

definition quote :: "pystr \<Rightarrow> pystr \<Rightarrow> exn + pystr" where
  "quote s safe =
     (if s = [] then Inr s
      else (case utf8_encode s of
              Inl e \<Rightarrow> Inl e
            | Inr bs \<Rightarrow> Inr (quote_from_bytes bs safe)))"

definition quote_plus :: "pystr \<Rightarrow> exn + pystr" where
  "quote_plus s =
     (if ch CHR '' '' \<notin> set s then quote s []
      else (case quote s [ch CHR '' ''] of
              Inl e \<Rightarrow> Inl e
            | Inr q \<Rightarrow> Inr (map (\<lambda>c. if c = ch CHR '' '' then ch CHR ''+'' else c) q)))"

subsection \<open>Splitting and joining a URL\<close>

record ParseResult =
  scheme :: pystr
  netloc :: pystr
  path :: pystr
  params :: pystr
  query :: pystr
  fragment :: pystr

text \<open>\<open>_splitnetloc(url, 2)\<close>: the text after the two slashes up to the first of \<open>/?#\<close>.\<close>

definition netloc_delim :: "nat \<Rightarrow> bool" where
  "netloc_delim c \<longleftrightarrow> c = ch CHR ''/'' \<or> c = ch CHR ''?'' \<or> c = ch CHR ''#''"

definition splitnetloc :: "pystr \<Rightarrow> pystr \<times> pystr" where
  "splitnetloc url =
     (takeWhile (\<lambda>c. \<not> netloc_delim c) (drop 2 url),
      dropWhile (\<lambda>c. \<not> netloc_delim c) (drop 2 url))"

text \<open>\<open>_check_bracketed_host\<close>; \<open>True\<close> when it raises \<open>ValueError\<close>. The regular
  expression is \<open>\Av[a-fA-F0-9]+\..+\Z\<close>, where the dot matches no newline.\<close>

definition ipvfuture_ok :: "pystr \<Rightarrow> bool" where
  "ipvfuture_ok h =
     (case h of
        [] \<Rightarrow> False
      | v # r \<Rightarrow>
          (let hx = takeWhile is_hexdig r;
               tl = dropWhile is_hexdig r
           in hx \<noteq> [] \<and>
              (case tl of
                 [] \<Rightarrow> False
               | d # rest \<Rightarrow> d = ch CHR ''.'' \<and> rest \<noteq> [] \<and> 10 \<notin> set rest)))"

definition check_bracketed_host :: "stdlib \<Rightarrow> pystr \<Rightarrow> bool" where
  "check_bracketed_host L hostname =
     (if take 1 hostname = S ''v'' then \<not> ipvfuture_ok hostname
      else \<not> ip_address_v6 L hostname)"

text \<open>\<open>_checknetloc\<close>; \<open>True\<close> when it raises \<open>ValueError\<close>.\<close>

definition checknetloc :: "stdlib \<Rightarrow> pystr \<Rightarrow> bool" where
  "checknetloc L nl =
     (if nl = [] \<or> (\<forall>c \<in> set nl. c < 128) then False
      else (let n = filter (\<lambda>c. c \<noteq> ch CHR ''@'' \<and> c \<noteq> ch CHR '':''
                              \<and> c \<noteq> ch CHR ''#'' \<and> c \<noteq> ch CHR ''?'') nl;
                netloc2 = nfkc L n
            in if n = netloc2 then False
               else (\<exists>c \<in> set (S ''/?#@:''). c \<in> set netloc2)))"

definition urlsplit ::
  "stdlib \<Rightarrow> pystr \<Rightarrow> exn + (pystr \<times> pystr \<times> pystr \<times> pystr \<times> pystr)" where
  "urlsplit L url0 =
     (let url1 = dropWhile c0_control_or_space url0;
          url2 = filter (\<lambda>c. \<not> unsafe_url_byte c) url1;
          pre = before (ch CHR '':'') url2;
          (sc, url3) =
            (if ch CHR '':'' \<in> set url2 \<and> pre \<noteq> [] \<and> is_ascii_alpha (hd url2)
                \<and> list_all scheme_char pre
             then (lower pre, after (ch CHR '':'') url2)
             else ([], url2));
          (nl, url4) =
            (if take 2 url3 = S ''//'' then splitnetloc url3 else ([], url3));
          lb = ch CHR ''['' \<in> set nl;
          rb = ch CHR '']'' \<in> set nl
      in if (lb \<and> \<not> rb) \<or> (rb \<and> \<not> lb) then Inl ValueError
         else if lb \<and> rb \<and>
                 check_bracketed_host L
                   (before (ch CHR '']'') (after (ch CHR ''['') nl))
         then Inl ValueError
         else
           (let (url5, fr) =
                  (if ch CHR ''#'' \<in> set url4
                   then (before (ch CHR ''#'') url4, after (ch CHR ''#'') url4)
                   else (url4, []));
                (url6, q) =
                  (if ch CHR ''?'' \<in> set url5
                   then (before (ch CHR ''?'') url5, after (ch CHR ''?'') url5)
                   else (url5, []))
            in if checknetloc L nl then Inl ValueError
               else Inr (sc, nl, url6, q, fr)))"

text \<open>
  \<open>_splitparams\<close>: \<open>seg\<close> is the text after the last slash, where the source looks for
  the first semicolon (\<open>url.find(';', url.rfind('/'))\<close>); without a slash \<open>seg\<close> is the
  whole text.
\<close>

definition splitparams :: "pystr \<Rightarrow> pystr \<times> pystr" where
  "splitparams url =
     (let seg = rev (takeWhile (\<lambda>c. c \<noteq> ch CHR ''/'') (rev url));
          pre = take (length url - length seg) url
      in if ch CHR '';'' \<notin> set seg then (url, [])
         else (pre @ before (ch CHR '';'') seg, after (ch CHR '';'') seg))"

definition urlparse :: "stdlib \<Rightarrow> pystr \<Rightarrow> exn + ParseResult" where
  "urlparse L url =
     (case urlsplit L url of
        Inl e \<Rightarrow> Inl e
      | Inr (sc, nl, url', q, fr) \<Rightarrow>
          (let (url'', ps) =
                 (if sc \<in> set uses_params \<and> ch CHR '';'' \<in> set url'
                  then splitparams url' else (url', []))
           in Inr \<lparr>scheme = sc, netloc = nl, path = url'', params = ps,
                    query = q, fragment = fr\<rparr>))"

definition urlunsplit :: "pystr \<times> pystr \<times> pystr \<times> pystr \<times> pystr \<Rightarrow> pystr" where
  "urlunsplit c =
     (case c of (sc, nl, url, q, fr) \<Rightarrow>
        (let url1 =
               (if nl \<noteq> [] \<or> (sc \<noteq> [] \<and> sc \<in> set uses_netloc)
                   \<or> take 2 url = S ''//''
                then S ''//'' @ nl
                       @ (if url \<noteq> [] \<and> take 1 url \<noteq> S ''/'' then S ''/'' @ url else url)
                else url);
             url2 = (if sc \<noteq> [] then sc @ S '':'' @ url1 else url1);
             url3 = (if q \<noteq> [] then url2 @ S ''?'' @ q else url2)
         in if fr \<noteq> [] then url3 @ S ''#'' @ fr else url3))"

definition urlunparse :: "ParseResult \<Rightarrow> pystr" where
  "urlunparse p =
     urlunsplit (scheme p, netloc p,
       (if params p \<noteq> [] then path p @ S '';'' @ params p else path p),
       query p, fragment p)"

subsection \<open>Query strings\<close>

text \<open>\<open>parse_qsl(qs, keep_blank_values=True)\<close>: empty pieces are skipped, a piece
  without \<open>=\<close> gets the empty value.\<close>

definition parse_qsl :: "pystr \<Rightarrow> (pystr \<times> pystr) list" where
  "parse_qsl qs =
     (if qs = [] then []
      else map (\<lambda>name_value.
                  (unquote_plus (before (ch CHR ''='') name_value),
                   unquote_plus (after (ch CHR ''='') name_value)))
             (filter (\<lambda>name_value. name_value \<noteq> []) (split_on (ch CHR ''&'') qs)))"

text \<open>\<open>urlencode(query, doseq=True)\<close> on a list of pairs of \<open>str\<close>: the first key or
  value that cannot be encoded raises.\<close>

fun urlencode_items :: "(pystr \<times> pystr) list \<Rightarrow> exn + pystr list" where
  "urlencode_items [] = Inr []"
| "urlencode_items ((k, v) # rest) =
     (case quote_plus k of
        Inl e \<Rightarrow> Inl e
      | Inr k' \<Rightarrow>
          (case quote_plus v of
             Inl e \<Rightarrow> Inl e
           | Inr v' \<Rightarrow>
               (case urlencode_items rest of
                  Inl e \<Rightarrow> Inl e
                | Inr l \<Rightarrow> Inr ((k' @ S ''='' @ v') # l))))"

definition urlencode :: "(pystr \<times> pystr) list \<Rightarrow> exn + pystr" where
  "urlencode pairs =
     (case urlencode_items pairs of Inl e \<Rightarrow> Inl e | Inr l \<Rightarrow> Inr (join (S ''&'') l))"

section \<open>\<open>normalize_url\<close> (main.py and catalog_to_json.py, the same text)\<close>

definition noise_key :: "pystr \<Rightarrow> bool" where
  "noise_key k \<longleftrightarrow> k = S ''limit'' \<or> k = S ''limitstart''"

definition normalize_url :: "stdlib \<Rightarrow> pystr \<Rightarrow> exn + pystr" where
  "normalize_url L url =
     (case urlparse L url of
        Inl e \<Rightarrow> Inl e
      | Inr parsed \<Rightarrow>
          (let query_pairs = parse_qsl (query parsed);
               filtered = filter (\<lambda>(k, v). \<not> noise_key k) query_pairs
           in case urlencode filtered of
                Inl e \<Rightarrow> Inl e
              | Inr q \<Rightarrow> Inr (urlunparse (parsed\<lparr>query := q\<rparr>))))"

section \<open>The scheduler shared by both crawlers\<close>

text \<open>
  Nodes are objects that the queue, the futures dictionary and the children lists refer
  to, so the state holds a store \<open>nodes\<close>: a reference is an index into it, and a new
  object is appended. \<open>seen\<close> lists the elements of the Python set in the order of the
  \<open>seen.add\<close> calls. \<open>futures\<close> is the dictionary from futures to nodes in insertion
  order; a future is named by the number of \<open>submit\<close> calls before it. \<open>warnings\<close> is
  what the \<open>print\<close> of the exception handler has written: the URL and the exception.
\<close>

record 'n crawl_state =
  nodes :: "'n list"
  queue :: "nat list"
  seen :: "pystr list"
  futures :: "(nat \<times> nat) list"
  submitted :: nat
  warnings :: "(pystr \<times> exn) list"

text \<open>The inner loop \<open>while queue and len(futures) < self.max_workers\<close>.\<close>

function dispatch :: "int \<Rightarrow> 'n crawl_state \<Rightarrow> 'n crawl_state" where
  "dispatch max_workers s =
     (case queue s of
        [] \<Rightarrow> s
      | node # rest \<Rightarrow>
          if int (length (futures s)) < max_workers
          then dispatch max_workers
                 (s\<lparr>queue := rest,
                    futures := futures s @ [(submitted s, node)],
                    submitted := Suc (submitted s)\<rparr>)
          else s)"
  by pat_completeness auto
termination
  by (relation "measure (\<lambda>(m, s). length (queue s))") auto

text \<open>
  \<open>wait(futures.keys(), return_when=FIRST_COMPLETED)\<close> returns a non-empty set of the
  futures it was given, and the \<open>for\<close> loop visits that set in some order. Which futures
  and in which order is not decided by the program: \<open>choice\<close> is the answer of the
  environment. It is cut down to the futures that are there, without repetition; when
  nothing is left the oldest future is taken.
\<close>

definition wait_first_completed :: "nat list \<Rightarrow> nat list \<Rightarrow> nat list" where
  "wait_first_completed keys choice =
     (let d = remdups (filter (\<lambda>f. f \<in> set keys) choice)
      in if d = [] then take 1 keys else d)"

text \<open>
  The body of \<open>for future in done\<close>: \<open>futures.pop(future)\<close>, then \<open>handle\<close>, which is
  the rest of the body (\<open>future.result()\<close> and what follows) and differs between the
  two crawlers.
\<close>

fun drain ::
  "(nat \<Rightarrow> 'n crawl_state \<Rightarrow> exn + 'n crawl_state) \<Rightarrow> nat list \<Rightarrow> 'n crawl_state
     \<Rightarrow> exn + 'n crawl_state" where
  "drain handle [] s = Inr s"
| "drain handle (future # rest) s =
     (case map_of (futures s) future of
        None \<Rightarrow> Inl KeyError
      | Some node \<Rightarrow>
          (case handle node (s\<lparr>futures := filter (\<lambda>(f, n). f \<noteq> future) (futures s)\<rparr>) of
             Inl e \<Rightarrow> Inl e
           | Inr s' \<Rightarrow> drain handle rest s'))"

text \<open>
  One turn of \<open>while queue or futures\<close>, for a state in which the loop condition holds.
  The first component is what the environment will answer to the coming \<open>wait\<close> calls.
\<close>

definition loop_body ::
  "(nat \<Rightarrow> 'n crawl_state \<Rightarrow> exn + 'n crawl_state) \<Rightarrow> int
     \<Rightarrow> nat list list \<times> 'n crawl_state \<Rightarrow> exn + (nat list list \<times> 'n crawl_state)" where
  "loop_body handle max_workers c =
     (let s1 = dispatch max_workers (snd c)
      in if futures s1 = [] then Inr (fst c, s1)
         else
           (let done = wait_first_completed (map fst (futures s1))
                         (case fst c of [] \<Rightarrow> [] | choice # _ \<Rightarrow> choice)
            in case drain handle done s1 of
                 Inl e \<Rightarrow> Inl e
               | Inr s2 \<Rightarrow> Inr (drop 1 (fst c), s2)))"

definition finished :: "nat list list \<times> 'n crawl_state \<Rightarrow> bool" where
  "finished c \<longleftrightarrow> queue (snd c) = [] \<and> futures (snd c) = []"

text \<open>The outer loop; \<open>None\<close> when it runs forever.\<close>

partial_function (option) crawl_loop ::
  "(nat \<Rightarrow> 'n crawl_state \<Rightarrow> exn + 'n crawl_state) \<Rightarrow> int
     \<Rightarrow> nat list list \<times> 'n crawl_state \<Rightarrow> (exn + 'n crawl_state) option" where
  "crawl_loop handle max_workers c =
     (if finished c then Some (Inr (snd c))
      else (case loop_body handle max_workers c of
              Inl e \<Rightarrow> Some (Inl e)
            | Inr c' \<Rightarrow> crawl_loop handle max_workers c'))"

declare crawl_loop.simps [code]

text \<open>The states in which the loop tests its condition, from the state \<open>c0\<close> on.\<close>

inductive loop_visits ::
  "(nat \<Rightarrow> 'n crawl_state \<Rightarrow> exn + 'n crawl_state) \<Rightarrow> int
     \<Rightarrow> nat list list \<times> 'n crawl_state \<Rightarrow> nat list list \<times> 'n crawl_state \<Rightarrow> bool"
  for handle max_workers c0 where
  visits_start: "loop_visits handle max_workers c0 c0"
| visits_turn: "loop_visits handle max_workers c0 c \<Longrightarrow> \<not> finished c
     \<Longrightarrow> loop_body handle max_workers c = Inr c'
     \<Longrightarrow> loop_visits handle max_workers c0 c'"

text \<open>The state before the loop: the root in the queue, its identity in \<open>seen\<close>.\<close>

definition initial_state :: "'n \<Rightarrow> pystr \<Rightarrow> 'n crawl_state" where
  "initial_state root normalized =
     \<lparr>nodes = [root], queue = [0], seen = [normalized], futures = [], submitted = 0,
      warnings = []\<rparr>"

section \<open>\<open>CatalogCrawler\<close> (main.py)\<close>

record Entry =
  entry_name :: pystr
  entry_url :: pystr
  entry_kind :: pystr

record CatalogNode =
  name :: pystr
  url :: pystr
  depth :: int
  children :: "nat list"
  has_file_children :: bool

text \<open>The loop \<open>for entry in folder_entries\<close> for the node \<open>node\<close>.\<close>

fun add_children ::
  "stdlib \<Rightarrow> nat \<Rightarrow> Entry list \<Rightarrow> CatalogNode crawl_state \<Rightarrow> exn + CatalogNode crawl_state"
  where
  "add_children L node [] s = Inr s"
| "add_children L node (entry # rest) s =
     (case normalize_url L (entry_url entry) of
        Inl e \<Rightarrow> Inl e
      | Inr normalized \<Rightarrow>
          if normalized \<in> set (seen s) then add_children L node rest s
          else
            (let child = \<lparr>name = entry_name entry, url = entry_url entry,
                          depth = depth (nodes s ! node) + 1, children = [],
                          has_file_children = False\<rparr>;
                 ref = length (nodes s)
             in add_children L node rest
                  (s\<lparr>nodes := (nodes s)[node := (nodes s ! node)
                                \<lparr>children := children (nodes s ! node) @ [ref]\<rparr>] @ [child],
                     seen := seen s @ [normalized],
                     queue := queue s @ [ref]\<rparr>)))"

text \<open>
  The body of \<open>for future in done\<close> after the \<open>pop\<close>. \<open>fetch_entries\<close> is
  \<open>self._fetch_entries\<close>, the HTTP request and the HTML parser: \<open>Inl\<close> is the exception
  that \<open>future.result()\<close> raises again.
\<close>

definition handle_result ::
  "stdlib \<Rightarrow> (pystr \<Rightarrow> exn + Entry list) \<Rightarrow> nat \<Rightarrow> CatalogNode crawl_state
     \<Rightarrow> exn + CatalogNode crawl_state" where
  "handle_result L fetch_entries node s =
     (case fetch_entries (url (nodes s ! node)) of
        Inl exc \<Rightarrow> Inr (s\<lparr>warnings := warnings s @ [(url (nodes s ! node), exc)]\<rparr>)
      | Inr entries \<Rightarrow>
          (let folder_entries = filter (\<lambda>entry. entry_kind entry = S ''FOLDER'') entries;
               flag = list_ex (\<lambda>entry. entry_kind entry = S ''FILE'') entries
           in add_children L node folder_entries
                (s\<lparr>nodes := (nodes s)[node := (nodes s ! node)\<lparr>has_file_children := flag\<rparr>]\<rparr>)))"

text \<open>
  \<open>CatalogCrawler.crawl\<close>. The result is the store together with the rest of the final
  state; the returned \<open>root\<close> is the node 0. \<open>ThreadPoolExecutor\<close> raises \<open>ValueError\<close>
  when \<open>max_workers\<close> is not positive.
\<close>

definition CatalogCrawler_crawl ::
  "stdlib \<Rightarrow> (pystr \<Rightarrow> exn + Entry list) \<Rightarrow> int \<Rightarrow> nat list list \<Rightarrow> pystr \<Rightarrow> pystr
     \<Rightarrow> (exn + CatalogNode crawl_state) option" where
  "CatalogCrawler_crawl L fetch_entries max_workers sched root_name root_url =
     (let root = \<lparr>name = root_name, url = root_url, depth = 0, children = [],
                  has_file_children = False\<rparr>
      in case normalize_url L root_url of
           Inl e \<Rightarrow> Some (Inl e)
         | Inr normalized \<Rightarrow>
             if max_workers \<le> 0 then Some (Inl ValueError)
             else crawl_loop (handle_result L fetch_entries) max_workers
                    (sched, initial_state root normalized))"

section \<open>\<open>FullCatalogCrawler\<close> (catalog_to_json.py)\<close>

text \<open>The \<open>CatalogNode\<close> of catalog_to_json.py; its entries are tuples
  \<open>(name, url, kind)\<close>.\<close>

record FullCatalogNode =
  full_name :: pystr
  full_url :: pystr
  full_kind :: pystr
  full_children :: "nat list"

text \<open>The loop \<open>for name, url, kind in entries\<close>.\<close>

fun full_add_children ::
  "stdlib \<Rightarrow> nat \<Rightarrow> (pystr \<times> pystr \<times> pystr) list \<Rightarrow> FullCatalogNode crawl_state
     \<Rightarrow> exn + FullCatalogNode crawl_state" where
  "full_add_children L node [] s = Inr s"
| "full_add_children L node ((ename, eurl, ekind) # rest) s =
     (let child = \<lparr>full_name = ename, full_url = eurl, full_kind = ekind,
                   full_children = []\<rparr>;
          ref = length (nodes s);
          s1 = s\<lparr>nodes := (nodes s)[node := (nodes s ! node)
                   \<lparr>full_children := full_children (nodes s ! node) @ [ref]\<rparr>] @ [child]\<rparr>
      in if ekind = S ''FOLDER'' then
           (case normalize_url L eurl of
              Inl e \<Rightarrow> Inl e
            | Inr normalized \<Rightarrow>
                if normalized \<in> set (seen s1) then full_add_children L node rest s1
                else full_add_children L node rest
                       (s1\<lparr>seen := seen s1 @ [normalized], queue := queue s1 @ [ref]\<rparr>))
         else full_add_children L node rest s1)"

definition full_handle_result ::
  "stdlib \<Rightarrow> (pystr \<Rightarrow> exn + (pystr \<times> pystr \<times> pystr) list) \<Rightarrow> nat
     \<Rightarrow> FullCatalogNode crawl_state \<Rightarrow> exn + FullCatalogNode crawl_state" where
  "full_handle_result L fetch_entries node s =
     (case fetch_entries (full_url (nodes s ! node)) of
        Inl exc \<Rightarrow> Inr (s\<lparr>warnings := warnings s @ [(full_url (nodes s ! node), exc)]\<rparr>)
      | Inr entries \<Rightarrow> full_add_children L node entries s)"

definition FullCatalogCrawler_crawl ::
  "stdlib \<Rightarrow> (pystr \<Rightarrow> exn + (pystr \<times> pystr \<times> pystr) list) \<Rightarrow> int \<Rightarrow> nat list list
     \<Rightarrow> pystr \<Rightarrow> pystr \<Rightarrow> (exn + FullCatalogNode crawl_state) option" where
  "FullCatalogCrawler_crawl L fetch_entries max_workers sched root_name root_url =
     (let root = \<lparr>full_name = root_name, full_url = root_url, full_kind = S ''FOLDER'',
                  full_children = []\<rparr>
      in case normalize_url L root_url of
           Inl e \<Rightarrow> Some (Inl e)
         | Inr normalized \<Rightarrow>
             if max_workers \<le> 0 then Some (Inl ValueError)
             else crawl_loop (full_handle_result L fetch_entries) max_workers
                    (sched, initial_state root normalized))"

section \<open>Auxiliary definitions for the proofs\<close>

fun fresh_entries :: "stdlib \<Rightarrow> pystr list \<Rightarrow> Entry list \<Rightarrow> Entry list" where
  "fresh_entries L sn [] = []"
| "fresh_entries L sn (entry # rest) =
     (case normalize_url L (entry_url entry) of
        Inl e \<Rightarrow> []
      | Inr normalized \<Rightarrow>
          if normalized \<in> set sn then fresh_entries L sn rest
          else entry # fresh_entries L (sn @ [normalized]) rest)"

definition ident :: "stdlib \<Rightarrow> pystr \<Rightarrow> pystr" where
  "ident L u = (case normalize_url L u of Inl e \<Rightarrow> [] | Inr n \<Rightarrow> n)"

definition new_child :: "int \<Rightarrow> Entry \<Rightarrow> CatalogNode" where
  "new_child d entry = \<lparr>name = entry_name entry, url = entry_url entry, depth = d,
     children = [], has_file_children = False\<rparr>"

definition pending :: "'n crawl_state \<Rightarrow> nat list" where
  "pending s = map snd (futures s) @ queue s"

definition static :: "CatalogNode \<Rightarrow> pystr \<times> pystr \<times> int" where
  "static n = (name n, url n, depth n)"

definition attached :: "CatalogNode crawl_state \<Rightarrow> nat \<Rightarrow> nat \<Rightarrow> Entry list \<Rightarrow> bool" where
  "attached s j a new \<longleftrightarrow>
     children (nodes s ! j) = [a ..< a + length new] \<and> a + length new \<le> length (nodes s)
     \<and> (\<forall>k < length new. static (nodes s ! (a + k))
            = (entry_name (new ! k), entry_url (new ! k), depth (nodes s ! j) + 1))"

definition expanded ::
  "stdlib \<Rightarrow> (pystr \<Rightarrow> exn + Entry list) \<Rightarrow> CatalogNode crawl_state \<Rightarrow> nat \<Rightarrow> bool" where
  "expanded L fetch s j =
     (case fetch (url (nodes s ! j)) of
        Inl exc \<Rightarrow> children (nodes s ! j) = [] \<and> \<not> has_file_children (nodes s ! j)
                    \<and> (url (nodes s ! j), exc) \<in> set (warnings s)
      | Inr entries \<Rightarrow>
          has_file_children (nodes s ! j) = list_ex (\<lambda>e. entry_kind e = S ''FILE'') entries
          \<and> (\<exists>a. j < a \<and> a \<le> length (nodes s)
                \<and> attached s j a (fresh_entries L (take a (seen s))
                     (filter (\<lambda>e. entry_kind e = S ''FOLDER'') entries))))"

definition main_inv ::
  "stdlib \<Rightarrow> (pystr \<Rightarrow> exn + Entry list) \<Rightarrow> CatalogNode crawl_state \<Rightarrow> bool" where
  "main_inv L fetch s \<longleftrightarrow>
     nodes s \<noteq> [] \<and> depth (nodes s ! 0) = 0
     \<and> map (\<lambda>n. normalize_url L (url n)) (nodes s) = map Inr (seen s) \<and> distinct (seen s)
     \<and> distinct (pending s) \<and> (\<forall>j \<in> set (pending s). j < length (nodes s))
     \<and> distinct (map fst (futures s)) \<and> (\<forall>f \<in> set (map fst (futures s)). f < submitted s)
     \<and> (\<forall>j < length (nodes s).
           if j \<in> set (pending s)
           then children (nodes s ! j) = [] \<and> \<not> has_file_children (nodes s ! j)
           else expanded L fetch s j)"

definition links :: "(pystr \<Rightarrow> exn + Entry list) \<Rightarrow> pystr \<Rightarrow> pystr set" where
  "links fetch u = {entry_url e |e es. fetch u = Inr es \<and> e \<in> set es \<and> entry_kind e = S ''FOLDER''}"

text \<open>
  An example: the catalog of the scenario in the specification, with a page that fails.
  The root lists folder A, file B and folder E; A lists folder C, whose address is the
  root's with a \<open>limit\<close> parameter, and file D; fetching E fails. No address has a
  bracketed or a non-ASCII host, so the two library parameters are never consulted.
\<close>

definition lib0 :: stdlib where
  "lib0 = \<lparr>ip_address_v6 = (\<lambda>h. False), nfkc = (\<lambda>s. s)\<rparr>"

definition example_site :: "pystr \<Rightarrow> exn + Entry list" where
  "example_site u =
     (if u = S ''/c?id=0'' then
        Inr [\<lparr>entry_name = S ''A'', entry_url = S ''/c?id=1'', entry_kind = S ''FOLDER''\<rparr>,
             \<lparr>entry_name = S ''B'', entry_url = S ''/p?id=7'', entry_kind = S ''FILE''\<rparr>,
             \<lparr>entry_name = S ''E'', entry_url = S ''/c?id=2'', entry_kind = S ''FOLDER''\<rparr>]
      else if u = S ''/c?id=1'' then
        Inr [\<lparr>entry_name = S ''C'', entry_url = S ''/c?id=0&limit=50'', entry_kind = S ''FOLDER''\<rparr>,
             \<lparr>entry_name = S ''D'', entry_url = S ''/p?id=8'', entry_kind = S ''FILE''\<rparr>]
      else Inl (Raised (S ''503'')))"

text \<open>What \<open>CatalogCrawler.crawl\<close> returns for it with two workers.\<close>

definition example_result :: "CatalogNode crawl_state" where
  "example_result =
     \<lparr>nodes = [\<lparr>name = S ''Root'', url = S ''/c?id=0'', depth = 0, children = [1, 2],
                 has_file_children = True\<rparr>,
               \<lparr>name = S ''A'', url = S ''/c?id=1'', depth = 1, children = [],
                 has_file_children = True\<rparr>,
               \<lparr>name = S ''E'', url = S ''/c?id=2'', depth = 1, children = [],
                 has_file_children = False\<rparr>],
      queue = [], seen = [S ''/c?id=0'', S ''/c?id=1'', S ''/c?id=2''], futures = [],
      submitted = 3, warnings = [(S ''/c?id=2'', Raised (S ''503''))]\<rparr>"

text \<open>Every node outside the queue has been submitted once.\<close>

definition counted :: "'n crawl_state \<Rightarrow> bool" where
  "counted s \<longleftrightarrow> submitted s + length (queue s) = length (nodes s)"

text \<open>The entries that \<open>full_add_children\<close> puts in the queue: their references, from
  \<open>a\<close> on, and their identities.\<close>

fun full_fresh ::
  "stdlib \<Rightarrow> pystr list \<Rightarrow> nat \<Rightarrow> (pystr \<times> pystr \<times> pystr) list \<Rightarrow> (nat \<times> pystr) list" where
  "full_fresh L sn a [] = []"
| "full_fresh L sn a ((ename, eurl, ekind) # rest) =
     (if ekind = S ''FOLDER'' then
        (case normalize_url L eurl of
           Inl e \<Rightarrow> []
         | Inr normalized \<Rightarrow>
             if normalized \<in> set sn then full_fresh L sn (Suc a) rest
             else (a, normalized) # full_fresh L (sn @ [normalized]) (Suc a) rest)
      else full_fresh L sn (Suc a) rest)"

definition full_child :: "pystr \<times> pystr \<times> pystr \<Rightarrow> FullCatalogNode" where
  "full_child e = (case e of (ename, eurl, ekind) \<Rightarrow>
     \<lparr>full_name = ename, full_url = eurl, full_kind = ekind, full_children = []\<rparr>)"

definition fstatic :: "FullCatalogNode \<Rightarrow> pystr \<times> pystr \<times> pystr" where
  "fstatic n = (full_name n, full_url n, full_kind n)"

text \<open>The identity of a FOLDER entry, \<open>None\<close> for another entry.\<close>

definition eid :: "stdlib \<Rightarrow> pystr \<times> pystr \<times> pystr \<Rightarrow> (exn + pystr) option" where
  "eid L e = (case e of (ename, eurl, ekind) \<Rightarrow>
     if ekind = S ''FOLDER'' then Some (normalize_url L eurl) else None)"

definition ids :: "stdlib \<Rightarrow> FullCatalogNode crawl_state \<Rightarrow> (exn + pystr) option list" where
  "ids L s = map (\<lambda>n. eid L (fstatic n)) (nodes s)"

text \<open>The first FOLDER node with its identity, in the order of creation.\<close>

definition own :: "(exn + pystr) option list \<Rightarrow> nat \<Rightarrow> bool" where
  "own zs r \<longleftrightarrow> r < length zs \<and> zs ! r \<noteq> None \<and> zs ! r \<notin> set (take r zs)"

definition full_expanded ::
  "stdlib \<Rightarrow> (pystr \<Rightarrow> exn + (pystr \<times> pystr \<times> pystr) list) \<Rightarrow> FullCatalogNode crawl_state
     \<Rightarrow> nat \<Rightarrow> bool" where
  "full_expanded L fetch s j =
     (case fetch (full_url (nodes s ! j)) of
        Inl exc \<Rightarrow> full_children (nodes s ! j) = []
                    \<and> (full_url (nodes s ! j), exc) \<in> set (warnings s)
      | Inr entries \<Rightarrow>
          (\<exists>a. j < a \<and> a + length entries \<le> length (nodes s)
              \<and> full_children (nodes s ! j) = [a ..< a + length entries]
              \<and> (\<forall>k < length entries. fstatic (nodes s ! (a + k)) = entries ! k)))"

definition full_inv ::
  "stdlib \<Rightarrow> (pystr \<Rightarrow> exn + (pystr \<times> pystr \<times> pystr) list) \<Rightarrow> FullCatalogNode crawl_state
     \<Rightarrow> bool" where
  "full_inv L fetch s \<longleftrightarrow>
     own (ids L s) 0
     \<and> distinct (seen s) \<and> (\<lambda>n. Some (Inr n)) ` set (seen s) = set (ids L s) - {None}
     \<and> distinct (pending s) \<and> (\<forall>j \<in> set (pending s). own (ids L s) j)
     \<and> distinct (map fst (futures s)) \<and> (\<forall>f \<in> set (map fst (futures s)). f < submitted s)
     \<and> (\<forall>j < length (nodes s).
           if j \<in> set (pending s) \<or> \<not> own (ids L s) j
           then full_children (nodes s ! j) = []
           else full_expanded L fetch s j)"

definition full_links ::
  "(pystr \<Rightarrow> exn + (pystr \<times> pystr \<times> pystr) list) \<Rightarrow> pystr \<Rightarrow> pystr set" where
  "full_links fetch u =
     {eurl |ename eurl es. fetch u = Inr es \<and> (ename, eurl, S ''FOLDER'') \<in> set es}"

text \<open>The example catalog as \<open>FullCatalogCrawler\<close> sees it, and what its crawl returns.\<close>

definition example_site_full :: "pystr \<Rightarrow> exn + (pystr \<times> pystr \<times> pystr) list" where
  "example_site_full u =
     (case example_site u of
        Inl e \<Rightarrow> Inl e
      | Inr es \<Rightarrow> Inr (map (\<lambda>e. (entry_name e, entry_url e, entry_kind e)) es))"

definition example_full_result :: "FullCatalogNode crawl_state" where
  "example_full_result =
     \<lparr>nodes = [\<lparr>full_name = S ''Root'', full_url = S ''/c?id=0'', full_kind = S ''FOLDER'',
                 full_children = [1, 2, 3]\<rparr>,
               \<lparr>full_name = S ''A'', full_url = S ''/c?id=1'', full_kind = S ''FOLDER'',
                 full_children = [4, 5]\<rparr>,
               \<lparr>full_name = S ''B'', full_url = S ''/p?id=7'', full_kind = S ''FILE'',
                 full_children = []\<rparr>,
               \<lparr>full_name = S ''E'', full_url = S ''/c?id=2'', full_kind = S ''FOLDER'',
                 full_children = []\<rparr>,
               \<lparr>full_name = S ''C'', full_url = S ''/c?id=0&limit=50'', full_kind = S ''FOLDER'',
                 full_children = []\<rparr>,
               \<lparr>full_name = S ''D'', full_url = S ''/p?id=8'', full_kind = S ''FILE'',
                 full_children = []\<rparr>],
      queue = [], seen = [S ''/c?id=0'', S ''/c?id=1'', S ''/c?id=2''], futures = [],
      submitted = 3, warnings = [(S ''/c?id=2'', Raised (S ''503''))]\<rparr>"

text \<open>The first FOLDER node with its identity, in the order of creation: the node that
  \<open>FullCatalogCrawler\<close> puts in the queue.\<close>

definition first_occurrence :: "stdlib \<Rightarrow> FullCatalogNode crawl_state \<Rightarrow> nat \<Rightarrow> bool" where
  "first_occurrence L s p \<longleftrightarrow>
     full_kind (nodes s ! p) = S ''FOLDER''
     \<and> (\<forall>i < p. full_kind (nodes s ! i) = S ''FOLDER'' \<longrightarrow>
           normalize_url L (full_url (nodes s ! i)) \<noteq> normalize_url L (full_url (nodes s ! p)))"

text \<open>The state of the example after the first turn of the loop of \<open>CatalogCrawler\<close>.\<close>

definition example_after_first_turn :: "CatalogNode crawl_state" where
  "example_after_first_turn =
     \<lparr>nodes = [\<lparr>name = S ''Root'', url = S ''/c?id=0'', depth = 0, children = [1, 2],
                 has_file_children = True\<rparr>,
               \<lparr>name = S ''A'', url = S ''/c?id=1'', depth = 1, children = [],
                 has_file_children = False\<rparr>,
               \<lparr>name = S ''E'', url = S ''/c?id=2'', depth = 1, children = [],
                 has_file_children = False\<rparr>],
      queue = [1, 2], seen = [S ''/c?id=0'', S ''/c?id=1'', S ''/c?id=2''], futures = [],
      submitted = 1, warnings = []\<rparr>"

text \<open>The addresses reachable from the root: the addresses of the FOLDER entries of the
  pages of reachable addresses.\<close>

inductive_set reachable :: "(pystr \<Rightarrow> exn + Entry list) \<Rightarrow> pystr \<Rightarrow> pystr set"
  for fetch :: "pystr \<Rightarrow> exn + Entry list" and root_url :: pystr where
  reach_root: "root_url \<in> reachable fetch root_url"
| reach_link: "u \<in> reachable fetch root_url \<Longrightarrow> fetch u = Inr es \<Longrightarrow> entry \<in> set es
     \<Longrightarrow> entry_kind entry = S ''FOLDER'' \<Longrightarrow> entry_url entry \<in> reachable fetch root_url"

inductive_set full_reachable ::
  "(pystr \<Rightarrow> exn + (pystr \<times> pystr \<times> pystr) list) \<Rightarrow> pystr \<Rightarrow> pystr set"
  for fetch :: "pystr \<Rightarrow> exn + (pystr \<times> pystr \<times> pystr) list" and root_url :: pystr where
  full_reach_root: "root_url \<in> full_reachable fetch root_url"
| full_reach_link: "u \<in> full_reachable fetch root_url \<Longrightarrow> fetch u = Inr es
     \<Longrightarrow> (ename, eurl, S ''FOLDER'') \<in> set es \<Longrightarrow> eurl \<in> full_reachable fetch root_url"

text \<open>The normalized identities of a set of addresses.\<close>

definition identities :: "stdlib \<Rightarrow> pystr set \<Rightarrow> pystr set" where
  "identities L R = {n. \<exists>u \<in> R. normalize_url L u = Inr n}"

text \<open>The number of identities not yet seen plus the number of nodes waiting in the
  queue or in flight: it decreases with every handled future.\<close>

definition work_left :: "nat \<Rightarrow> 'n crawl_state \<Rightarrow> nat" where
  "work_left bound s = (bound - length (seen s)) + length (queue s) + length (futures s)"

definition main_reach ::
  "stdlib \<Rightarrow> (pystr \<Rightarrow> exn + Entry list) \<Rightarrow> pystr \<Rightarrow> CatalogNode crawl_state \<Rightarrow> bool" where
  "main_reach L fetch root_url s \<longleftrightarrow>
     main_inv L fetch s \<and> url ` set (nodes s) \<subseteq> reachable fetch root_url"

definition full_reach ::
  "stdlib \<Rightarrow> (pystr \<Rightarrow> exn + (pystr \<times> pystr \<times> pystr) list) \<Rightarrow> pystr
     \<Rightarrow> FullCatalogNode crawl_state \<Rightarrow> bool" where
  "full_reach L fetch root_url s \<longleftrightarrow>
     full_inv L fetch s
     \<and> full_url ` (set (nodes s) \<inter> {x. full_kind x = S ''FOLDER''})
         \<subseteq> full_reachable fetch root_url"

section \<open>Properties\<close>

declare dispatch.simps [simp del]

lemma dispatch_frame:
  "nodes (dispatch m s) = nodes s \<and> seen (dispatch m s) = seen s
     \<and> warnings (dispatch m s) = warnings s"
proof (induction m s rule: dispatch.induct)
  case (1 m s)
  show ?case
  proof (cases "queue s")
    case Nil
    then show ?thesis by (simp add: dispatch.simps [of m s])
  next
    case (Cons node rest)
    show ?thesis
    proof (cases "int (length (futures s)) < m")
      case True
      with Cons 1 show ?thesis by (simp add: dispatch.simps [of m s])
    next
      case False
      with Cons show ?thesis by (simp add: dispatch.simps [of m s])
    qed
  qed
qed

lemma dispatch_pending:
  "map snd (futures (dispatch m s)) @ queue (dispatch m s) = map snd (futures s) @ queue s"
proof (induction m s rule: dispatch.induct)
  case (1 m s)
  show ?case
  proof (cases "queue s")
    case Nil
    then show ?thesis by (simp add: dispatch.simps [of m s])
  next
    case (Cons node rest)
    show ?thesis
    proof (cases "int (length (futures s)) < m")
      case True
      with Cons 1 show ?thesis by (simp add: dispatch.simps [of m s])
    next
      case False
      with Cons show ?thesis by (simp add: dispatch.simps [of m s])
    qed
  qed
qed

lemma dispatch_bound:
  "int (length (futures s)) \<le> m \<Longrightarrow> int (length (futures (dispatch m s))) \<le> m"
proof (induction m s rule: dispatch.induct)
  case (1 m s)
  show ?case
  proof (cases "queue s")
    case Nil
    with 1 show ?thesis by (simp add: dispatch.simps [of m s])
  next
    case (Cons node rest)
    show ?thesis
    proof (cases "int (length (futures s)) < m")
      case True
      with Cons 1 show ?thesis by (simp add: dispatch.simps [of m s])
    next
      case False
      with Cons 1 show ?thesis by (simp add: dispatch.simps [of m s])
    qed
  qed
qed

lemma dispatch_keys:
  "(\<forall>f \<in> set (map fst (futures s)). f < submitted s) \<Longrightarrow> distinct (map fst (futures s))
   \<Longrightarrow> (\<forall>f \<in> set (map fst (futures (dispatch m s))). f < submitted (dispatch m s))
       \<and> distinct (map fst (futures (dispatch m s)))"
proof (induction m s rule: dispatch.induct)
  case (1 m s)
  show ?case
  proof (cases "queue s")
    case Nil
    with 1 show ?thesis by (simp add: dispatch.simps [of m s])
  next
    case (Cons node rest)
    show ?thesis
    proof (cases "int (length (futures s)) < m")
      case True
      let ?s = "s\<lparr>queue := rest, futures := futures s @ [(submitted s, node)],
                   submitted := Suc (submitted s)\<rparr>"
      have "(\<forall>f \<in> set (map fst (futures ?s)). f < submitted ?s)"
        using 1(2) by (auto simp: less_Suc_eq)
      moreover have "distinct (map fst (futures ?s))"
        using 1(2,3) by auto
      ultimately show ?thesis
        using 1(1) [OF Cons True] Cons True by (simp add: dispatch.simps [of m s])
    next
      case False
      with Cons 1 show ?thesis by (simp add: dispatch.simps [of m s])
    qed
  qed
qed

lemma dispatch_progress:
  "1 \<le> m \<Longrightarrow> queue s \<noteq> [] \<or> futures s \<noteq> [] \<Longrightarrow> futures (dispatch m s) \<noteq> []"
proof (induction m s rule: dispatch.induct)
  case (1 m s)
  show ?case
  proof (cases "queue s")
    case Nil
    with 1 show ?thesis by (simp add: dispatch.simps [of m s])
  next
    case (Cons node rest)
    show ?thesis
    proof (cases "int (length (futures s)) < m")
      case True
      with Cons 1 show ?thesis by (simp add: dispatch.simps [of m s])
    next
      case False
      with 1(2) have "futures s \<noteq> []" by auto
      with False Cons show ?thesis by (simp add: dispatch.simps [of m s])
    qed
  qed
qed

lemma wait_first_completed_ok:
  "keys \<noteq> [] \<Longrightarrow> wait_first_completed keys choice \<noteq> []
     \<and> distinct (wait_first_completed keys choice)
     \<and> set (wait_first_completed keys choice) \<subseteq> set keys"
  by (cases keys) (auto simp: wait_first_completed_def Let_def)

lemma wait_first_completed_any:
  "d \<noteq> [] \<Longrightarrow> distinct d \<Longrightarrow> set d \<subseteq> set keys \<Longrightarrow> wait_first_completed keys d = d"
proof -
  assume a: "d \<noteq> []" "distinct d" "set d \<subseteq> set keys"
  then have "filter (\<lambda>f. f \<in> set keys) d = d" by (auto simp: filter_id_conv)
  with a show ?thesis by (simp add: wait_first_completed_def Let_def distinct_remdups_id)
qed

lemma fresh_entries_ok:
  "e \<in> set (fresh_entries L sn es) \<Longrightarrow>
     normalize_url L (entry_url e) = Inr (ident L (entry_url e)) \<and> ident L (entry_url e) \<notin> set sn
     \<and> e \<in> set es"
proof (induction es arbitrary: sn)
  case Nil
  then show ?case by simp
next
  case (Cons x xs)
  show ?case
  proof (cases "normalize_url L (entry_url x)")
    case (Inl a)
    with Cons.prems show ?thesis by simp
  next
    case (Inr n)
    show ?thesis
    proof (cases "n \<in> set sn")
      case True
      with Inr Cons show ?thesis by simp
    next
      case False
      with Inr Cons.prems have "e = x \<or> e \<in> set (fresh_entries L (sn @ [n]) xs)" by simp
      then show ?thesis
      proof
        assume "e = x"
        with Inr False show ?thesis by (simp add: ident_def)
      next
        assume "e \<in> set (fresh_entries L (sn @ [n]) xs)"
        from Cons.IH [OF this] show ?thesis by simp
      qed
    qed
  qed
qed

lemma fresh_entries_distinct:
  "distinct sn \<Longrightarrow> distinct (sn @ map (\<lambda>e. ident L (entry_url e)) (fresh_entries L sn es))"
proof (induction es arbitrary: sn)
  case Nil
  then show ?case by simp
next
  case (Cons x xs)
  show ?case
  proof (cases "normalize_url L (entry_url x)")
    case (Inl e)
    with Cons show ?thesis by simp
  next
    case (Inr n)
    show ?thesis
    proof (cases "n \<in> set sn")
      case True
      with Inr Cons show ?thesis by simp
    next
      case False
      then have "distinct (sn @ [n])" using Cons.prems by simp
      from Cons.IH [OF this] False Inr show ?thesis by (simp add: ident_def)
    qed
  qed
qed

lemma add_children_closed:
  assumes "add_children L node es s = Inr s'" and "node < length (nodes s)"
  shows "nodes s' = (nodes s)[node := (nodes s ! node)
            \<lparr>children := children (nodes s ! node)
               @ [length (nodes s) ..< length (nodes s) + length (fresh_entries L (seen s) es)]\<rparr>]
          @ map (new_child (depth (nodes s ! node) + 1)) (fresh_entries L (seen s) es)
     \<and> seen s' = seen s @ map (\<lambda>e. ident L (entry_url e)) (fresh_entries L (seen s) es)
     \<and> queue s' = queue s
          @ [length (nodes s) ..< length (nodes s) + length (fresh_entries L (seen s) es)]
     \<and> futures s' = futures s \<and> submitted s' = submitted s \<and> warnings s' = warnings s"
  using assms
proof (induction es arbitrary: s)
  case Nil
  then show ?case by simp
next
  case (Cons x xs)
  show ?case
  proof (cases "normalize_url L (entry_url x)")
    case (Inl e)
    with Cons.prems show ?thesis by simp
  next
    case (Inr n)
    show ?thesis
    proof (cases "n \<in> set (seen s)")
      case True
      with Inr Cons show ?thesis by simp
    next
      case False
      let ?ns = "nodes s"
      let ?child = "new_child (depth (?ns ! node) + 1) x"
      let ?s2 = "s\<lparr>nodes := ?ns[node := (?ns ! node)\<lparr>children := children (?ns ! node) @ [length ?ns]\<rparr>] @ [?child],
                    seen := seen s @ [n], queue := queue s @ [length ?ns]\<rparr>"
      let ?fr = "fresh_entries L (seen s @ [n]) xs"
      have run: "add_children L node xs ?s2 = Inr s'"
        using Cons.prems(1) Inr False by (simp add: new_child_def Let_def)
      have lt: "node < length (nodes ?s2)" using Cons.prems(2) by simp
      have at: "nodes ?s2 ! node = (?ns ! node)\<lparr>children := children (?ns ! node) @ [length ?ns]\<rparr>"
        using Cons.prems(2) by (simp add: nth_append)
      have fr: "fresh_entries L (seen s) (x # xs) = x # ?fr"
        using Inr False by simp
      have upt: "[length ?ns ..< Suc (length ?ns + length ?fr)]
                  = length ?ns # [Suc (length ?ns) ..< Suc (length ?ns + length ?fr)]"
        by (rule upt_conv_Cons) simp
      note ih = Cons.IH [OF run lt]
      have "nodes s' = ?ns[node := (?ns ! node)
              \<lparr>children := children (?ns ! node) @ [length ?ns ..< length ?ns + length (x # ?fr)]\<rparr>]
            @ map (new_child (depth (?ns ! node) + 1)) (x # ?fr)"
        using ih at Cons.prems(2) by (simp del: upt_Suc add: upt list_update_append1)
      moreover have "seen s' = seen s @ map (\<lambda>e. ident L (entry_url e)) (x # ?fr)"
        using ih Inr by (simp add: ident_def)
      moreover have "queue s' = queue s @ [length ?ns ..< length ?ns + length (x # ?fr)]"
        using ih by (simp del: upt_Suc add: upt)
      moreover have "futures s' = futures s \<and> submitted s' = submitted s \<and> warnings s' = warnings s"
        using ih by simp
      ultimately show ?thesis by (simp only: fr) 
    qed
  qed
qed

lemma pop_values:
  assumes "map_of fs f = Some n" and "distinct (map fst fs)" and "distinct (map snd fs)"
  shows "set (map snd (filter (\<lambda>(k, v). k \<noteq> f) fs)) = set (map snd fs) - {n}"
    and "distinct (map snd (filter (\<lambda>(k, v). k \<noteq> f) fs))"
    and "distinct (map fst (filter (\<lambda>(k, v). k \<noteq> f) fs))"
    and "n \<in> set (map snd fs)"
proof -
  have mem: "(f, n) \<in> set fs" using assms(1) by (rule map_of_SomeD)
  have inj: "inj_on snd (set fs)" using assms(3) by (simp add: distinct_map)
  have inj1: "inj_on fst (set fs)" using assms(2) by (simp add: distinct_map)
  show "set (map snd (filter (\<lambda>(k, v). k \<noteq> f) fs)) = set (map snd fs) - {n}"
  proof (intro set_eqI iffI)
    fix x assume "x \<in> set (map snd (filter (\<lambda>(k, v). k \<noteq> f) fs))"
    then obtain k where k: "(k, x) \<in> set fs" "k \<noteq> f" by auto
    have "x \<noteq> n"
    proof
      assume "x = n"
      with k mem have "(k, x) \<in> set fs" "(f, n) \<in> set fs" "snd (k, x) = snd (f, n)" by simp_all
      with inj have "(k, x) = (f, n)" by (meson inj_onD)
      with k show False by simp
    qed
    with k show "x \<in> set (map snd fs) - {n}" by force
  next
    fix x assume "x \<in> set (map snd fs) - {n}"
    then obtain k where k: "(k, x) \<in> set fs" "x \<noteq> n" by auto
    have "k \<noteq> f"
    proof
      assume "k = f"
      with k mem have "(k, x) \<in> set fs" "(f, n) \<in> set fs" "fst (k, x) = fst (f, n)" by simp_all
      with inj1 have "(k, x) = (f, n)" by (meson inj_onD)
      with k show False by simp
    qed
    with k show "x \<in> set (map snd (filter (\<lambda>(k, v). k \<noteq> f) fs))" by force
  qed
  show "distinct (map snd (filter (\<lambda>(k, v). k \<noteq> f) fs))"
    using assms(3) by (rule distinct_map_filter)
  show "distinct (map fst (filter (\<lambda>(k, v). k \<noteq> f) fs))"
    using assms(2) by (rule distinct_map_filter)
  show "n \<in> set (map snd fs)" using mem by force
qed

lemma expanded_frame:
  assumes ex: "expanded L fetch s j"
    and same: "nodes s' ! j = nodes s ! j"
    and len: "length (nodes s) \<le> length (nodes s')"
    and st: "\<forall>i < length (nodes s). static (nodes s' ! i) = static (nodes s ! i)"
    and sn: "seen s' = seen s @ x" "length (seen s) = length (nodes s)"
    and wn: "set (warnings s) \<subseteq> set (warnings s')"
  shows "expanded L fetch s' j"
proof (cases "fetch (url (nodes s ! j))")
  case (Inl exc)
  with ex same wn show ?thesis by (auto simp: expanded_def)
next
  case (Inr entries)
  let ?folder = "filter (\<lambda>e. entry_kind e = S ''FOLDER'') entries"
  from ex Inr obtain a where a: "j < a" "a \<le> length (nodes s)"
      "attached s j a (fresh_entries L (take a (seen s)) ?folder)"
    and hf: "has_file_children (nodes s ! j) = list_ex (\<lambda>e. entry_kind e = S ''FILE'') entries"
    by (auto simp: expanded_def)
  have tk: "take a (seen s') = take a (seen s)" using a(2) sn by simp
  let ?new = "fresh_entries L (take a (seen s)) ?folder"
  have "attached s' j a ?new"
    unfolding attached_def
  proof (intro conjI allI impI)
    show "children (nodes s' ! j) = [a..<a + length ?new]"
      using a(3) same by (simp add: attached_def)
    show "a + length ?new \<le> length (nodes s')"
      using a(3) len by (simp add: attached_def)
    fix k assume k: "k < length ?new"
    then have "a + k < length (nodes s)" using a(3) by (simp add: attached_def)
    then have "static (nodes s' ! (a + k)) = static (nodes s ! (a + k))" using st by simp
    then show "static (nodes s' ! (a + k))
        = (entry_name (?new ! k), entry_url (?new ! k), depth (nodes s' ! j) + 1)"
      using a(3) k same by (simp add: attached_def)
  qed
  with a(1,2) len hf Inr same tk show ?thesis
    by (auto simp: expanded_def intro!: exI [of _ a])
qed

lemma main_step_full:
  assumes inv: "main_inv L fetch s" and pop: "map_of (futures s) f = Some n"
    and run: "handle_result L fetch n (s\<lparr>futures := filter (\<lambda>(k, v). k \<noteq> f) (futures s)\<rparr>) = Inr s'"
  shows "main_inv L fetch s' \<and> futures s' = filter (\<lambda>(k, v). k \<noteq> f) (futures s)
     \<and> length (futures s') < length (futures s)
     \<and> length (seen s') + length (queue s) = length (seen s) + length (queue s')
     \<and> url ` set (nodes s') \<subseteq> url ` set (nodes s) \<union> links fetch (url (nodes s ! n))
     \<and> n < length (nodes s) \<and> submitted s' = submitted s
     \<and> (\<exists>x. seen s' = seen s @ x)
     \<and> (\<forall>i < length (nodes s). static (nodes s' ! i) = static (nodes s ! i))"
proof -
  let ?fs = "filter (\<lambda>(k, v). k \<noteq> f) (futures s)"
  let ?s0 = "s\<lparr>futures := ?fs\<rparr>"
  let ?ns = "nodes s"
  let ?a = "length ?ns"
  from inv have ne: "?ns \<noteq> []" and d0: "depth (?ns ! 0) = 0"
    and ids: "map (\<lambda>n. normalize_url L (url n)) ?ns = map Inr (seen s)"
    and dseen: "distinct (seen s)"
    and dpend: "distinct (pending s)" and vpend: "\<forall>j \<in> set (pending s). j < ?a"
    and dkeys: "distinct (map fst (futures s))"
    and vkeys: "\<forall>f \<in> set (map fst (futures s)). f < submitted s"
    and body: "\<forall>j < ?a. if j \<in> set (pending s)
           then children (?ns ! j) = [] \<and> \<not> has_file_children (?ns ! j)
           else expanded L fetch s j"
    by (simp_all add: main_inv_def)
  from dpend have dv: "distinct (map snd (futures s))" and dq: "distinct (queue s)"
    and disj: "set (map snd (futures s)) \<inter> set (queue s) = {}"
    by (simp_all add: pending_def)
  note pv = pop_values [OF pop dkeys dv]
  have npend: "n \<in> set (pending s)" using pv(4) by (simp add: pending_def)
  have nlt: "n < ?a" using npend vpend by blast
  have nblank: "children (?ns ! n) = []" "\<not> has_file_children (?ns ! n)"
    using body nlt npend by auto
  have nq: "n \<notin> set (queue s)" using pv(4) disj by auto
  have p0: "set (pending ?s0) = set (pending s) - {n}"
    using pv(1) nq by (auto simp: pending_def)
  have dp0: "distinct (pending ?s0)"
    using pv(2) dq disj pv(1) by (auto simp: pending_def)
  have lens: "length (seen s) = ?a"
    using ids by (metis length_map)
  have keys0: "distinct (map fst ?fs)" "\<forall>f \<in> set (map fst ?fs). f < submitted s"
    using pv(3) vkeys by auto
  have shrink: "length ?fs < length (futures s)"
    using map_of_SomeD [OF pop] by (intro length_filter_less [of "(f, n)"]) auto
  show ?thesis
  proof (cases "fetch (url (?ns ! n))")
    case (Inl exc)
    with run have s': "s' = ?s0\<lparr>warnings := warnings s @ [(url (?ns ! n), exc)]\<rparr>"
      by (simp add: handle_result_def)
    have pend': "pending s' = pending ?s0" by (simp add: s' pending_def)
    have "\<forall>j < length (nodes s'). if j \<in> set (pending s')
           then children (nodes s' ! j) = [] \<and> \<not> has_file_children (nodes s' ! j)
           else expanded L fetch s' j"
    proof (intro allI impI)
      fix j assume j: "j < length (nodes s')"
      then have ja: "j < ?a" by (simp add: s')
      show "if j \<in> set (pending s')
           then children (nodes s' ! j) = [] \<and> \<not> has_file_children (nodes s' ! j)
           else expanded L fetch s' j"
      proof (cases "j \<in> set (pending s')")
        case True
        then have "j \<in> set (pending s)" using pend' p0 by simp
        with body ja True show ?thesis by (simp add: s')
      next
        case False
        show ?thesis
        proof (cases "j = n")
          case True
          have "expanded L fetch s' n"
            using Inl nblank by (simp add: expanded_def s')
          with False True show ?thesis by simp
        next
          case jn: False
          with False pend' p0 have "j \<notin> set (pending s)" by simp
          with body ja have "expanded L fetch s j" by auto
          then have "expanded L fetch s' j"
            by (rule expanded_frame [where x = "[]"]) (auto simp: s' lens)
          with False show ?thesis by simp
        qed
      qed
    qed
    moreover have "nodes s' \<noteq> []" "depth (nodes s' ! 0) = 0"
      "map (\<lambda>n. normalize_url L (url n)) (nodes s') = map Inr (seen s')" "distinct (seen s')"
      using ne d0 ids dseen by (simp_all add: s')
    moreover have "distinct (pending s')" using dp0 pend' by simp
    moreover have "\<forall>j \<in> set (pending s'). j < length (nodes s')"
      using vpend p0 pend' by (simp add: s')
    moreover have "distinct (map fst (futures s'))"
      "\<forall>f \<in> set (map fst (futures s')). f < submitted s'"
      using keys0 by (simp_all add: s')
    ultimately have "main_inv L fetch s'" unfolding main_inv_def by blast
    then show ?thesis using shrink nlt by (simp add: s')
  next
    case (Inr entries)
    define flag where "flag = list_ex (\<lambda>e. entry_kind e = S ''FILE'') entries"
    define folder where "folder = filter (\<lambda>e. entry_kind e = S ''FOLDER'') entries"
    define new where "new = fresh_entries L (seen s) folder"
    define d where "d = depth (?ns ! n) + 1"
    let ?s1 = "?s0\<lparr>nodes := ?ns[n := (?ns ! n)\<lparr>has_file_children := flag\<rparr>]\<rparr>"
    from run Inr have add: "add_children L n folder ?s1 = Inr s'"
      by (simp add: handle_result_def flag_def folder_def Let_def)
    have n1: "n < length (nodes ?s1)" using nlt by simp
    have at1: "nodes ?s1 ! n = (?ns ! n)\<lparr>has_file_children := flag\<rparr>" using nlt by simp
    note cl = add_children_closed [OF add n1]
    have nodes': "nodes s' = ?ns[n := (?ns ! n)\<lparr>has_file_children := flag,
                     children := [?a ..< ?a + length new]\<rparr>] @ map (new_child d) new"
      using cl nblank nlt by (simp add: at1 new_def d_def)
    have seen': "seen s' = seen s @ map (\<lambda>e. ident L (entry_url e)) new"
      using cl by (simp add: new_def)
    have queue': "queue s' = queue s @ [?a ..< ?a + length new]"
      using cl by (simp add: new_def)
    have rest': "futures s' = ?fs" "submitted s' = submitted s" "warnings s' = warnings s"
      using cl by simp_all
    have len': "length (nodes s') = ?a + length new" by (simp add: nodes')
    have old: "\<And>j. j < ?a \<Longrightarrow> j \<noteq> n \<Longrightarrow> nodes s' ! j = ?ns ! j"
      by (simp add: nodes' nth_append)
    have atn: "nodes s' ! n = (?ns ! n)\<lparr>has_file_children := flag,
                     children := [?a ..< ?a + length new]\<rparr>"
      using nlt by (simp add: nodes' nth_append)
    have fresh: "\<And>k. k < length new \<Longrightarrow> nodes s' ! (?a + k) = new_child d (new ! k)"
      by (simp add: nodes' nth_append)
    have stat: "\<forall>i < ?a. static (nodes s' ! i) = static (?ns ! i)"
    proof (intro allI impI)
      fix i assume "i < ?a"
      then show "static (nodes s' ! i) = static (?ns ! i)"
        by (cases "i = n") (simp_all add: old atn static_def)
    qed
    have pend': "pending s' = pending ?s0 @ [?a ..< ?a + length new]"
      by (simp add: pending_def queue' rest')
    have i1: "nodes s' \<noteq> []" using ne by (simp add: nodes')
    have i2: "depth (nodes s' ! 0) = 0"
    proof (cases "n = 0")
      case True
      with atn d0 show ?thesis by simp
    next
      case False
      with old [of 0] ne d0 show ?thesis by simp
    qed
    have newok: "\<And>e. e \<in> set new \<Longrightarrow>
        normalize_url L (entry_url e) = Inr (ident L (entry_url e))"
      using fresh_entries_ok by (auto simp: new_def)
    have i3: "map (\<lambda>n. normalize_url L (url n)) (nodes s') = map Inr (seen s')"
    proof -
      have "map (\<lambda>n. normalize_url L (url n)) (?ns[n := (?ns ! n)\<lparr>has_file_children := flag,
                     children := [?a ..< ?a + length new]\<rparr>])
            = map (\<lambda>n. normalize_url L (url n)) ?ns"
        using nlt by (simp add: map_update list_update_same_conv)
      moreover have "map (\<lambda>n. normalize_url L (url n)) (map (new_child d) new)
            = map Inr (map (\<lambda>e. ident L (entry_url e)) new)"
        using newok by (simp add: new_child_def)
      ultimately show ?thesis using ids by (simp add: nodes' seen')
    qed
    have i4: "distinct (seen s')"
      using fresh_entries_distinct [OF dseen] by (simp add: seen' new_def)
    have i5: "distinct (pending s')"
      using dp0 p0 vpend by (auto simp: pend')
    have i6: "\<forall>j \<in> set (pending s'). j < length (nodes s')"
      using p0 vpend by (auto simp: pend' len')
    have i7: "distinct (map fst (futures s'))" "\<forall>f \<in> set (map fst (futures s')). f < submitted s'"
      using keys0 by (simp_all add: rest')
    have i8: "\<forall>j < length (nodes s'). if j \<in> set (pending s')
           then children (nodes s' ! j) = [] \<and> \<not> has_file_children (nodes s' ! j)
           else expanded L fetch s' j"
    proof (intro allI impI)
      fix j assume j: "j < length (nodes s')"
      show "if j \<in> set (pending s')
           then children (nodes s' ! j) = [] \<and> \<not> has_file_children (nodes s' ! j)
           else expanded L fetch s' j"
      proof (cases "j \<in> set (pending s')")
        case True
        then consider "j \<in> set (pending s)" "j \<noteq> n" | "?a \<le> j" "j < ?a + length new"
          using p0 by (auto simp: pend')
        then have "children (nodes s' ! j) = [] \<and> \<not> has_file_children (nodes s' ! j)"
        proof cases
          case 1
          then have "j < ?a" using vpend by blast
          with 1 body old [of j] show ?thesis by simp
        next
          case 2
          then obtain k where "j = ?a + k" "k < length new"
            by (metis add_diff_inverse_nat less_diff_conv2 not_less add.commute)
          with fresh [of k] show ?thesis by (simp add: new_child_def)
        qed
        with True show ?thesis by simp
      next
        case False
        then have ja: "j < ?a" using j by (auto simp: pend' len')
        show ?thesis
        proof (cases "j = n")
          case True
          have tk: "take ?a (seen s') = seen s" using lens by (simp add: seen')
          have "attached s' n ?a new"
            unfolding attached_def
            using atn fresh by (simp add: len' new_child_def static_def d_def)
          then have "expanded L fetch s' n"
            using Inr atn nlt
            by (auto simp: expanded_def flag_def len' tk new_def folder_def intro!: exI [of _ ?a])
          with False True show ?thesis by simp
        next
          case jn: False
          with False p0 have "j \<notin> set (pending s)" by (simp add: pend')
          with body ja have "expanded L fetch s j" by auto
          then have "expanded L fetch s' j"
          proof (rule expanded_frame)
            show "nodes s' ! j = nodes s ! j" by (rule old [OF ja jn])
            show "length (nodes s) \<le> length (nodes s')" by (simp add: len')
            show "\<forall>i < length (nodes s). static (nodes s' ! i) = static (nodes s ! i)"
              by (rule stat)
            show "seen s' = seen s @ map (\<lambda>e. ident L (entry_url e)) new" by (rule seen')
            show "length (seen s) = length (nodes s)" by (rule lens)
            show "set (warnings s) \<subseteq> set (warnings s')" by (simp add: rest')
          qed
          with False show ?thesis by simp
        qed
      qed
    qed
    from i1 i2 i3 i4 i5 i6 i7 i8 have "main_inv L fetch s'" unfolding main_inv_def by blast
    moreover have "url ` set (nodes s') \<subseteq> url ` set (nodes s) \<union> links fetch (url (nodes s ! n))"
    proof
      fix u assume "u \<in> url ` set (nodes s')"
      then obtain j where j: "j < length (nodes s')" "u = url (nodes s' ! j)"
        by (auto simp: in_set_conv_nth)
      show "u \<in> url ` set (nodes s) \<union> links fetch (url (nodes s ! n))"
      proof (cases "j < ?a")
        case True
        then have "url (nodes s' ! j) = url (?ns ! j)"
          using stat by (auto simp: static_def)
        with True j show ?thesis by auto
      next
        case False
        with j len' obtain k where k: "j = ?a + k" "k < length new"
          by (metis add_diff_inverse_nat nat_add_left_cancel_less)
        then have "u = entry_url (new ! k)" using fresh [of k] j by (simp add: new_child_def)
        moreover have "new ! k \<in> set folder"
          using fresh_entries_ok [of "new ! k" L "seen s" folder] k by (simp add: new_def)
        ultimately show ?thesis using Inr by (auto simp: links_def folder_def)
      qed
    qed
    moreover have "\<exists>x. seen s' = seen s @ x" using seen' by blast
    moreover have "length (seen s') + length (queue s) = length (seen s) + length (queue s')"
      by (simp add: seen' queue')
    ultimately show ?thesis using shrink nlt stat by (simp add: rest')
  qed
qed

lemma main_step:
  assumes "main_inv L fetch s" and "map_of (futures s) f = Some n"
    and "handle_result L fetch n (s\<lparr>futures := filter (\<lambda>(k, v). k \<noteq> f) (futures s)\<rparr>) = Inr s'"
  shows "main_inv L fetch s'"
  using main_step_full [OF assms] by simp

lemma drain_inv:
  assumes step: "\<And>f n s s'. P s \<Longrightarrow> map_of (futures s) f = Some n
     \<Longrightarrow> handle n (s\<lparr>futures := filter (\<lambda>(k, v). k \<noteq> f) (futures s)\<rparr>) = Inr s' \<Longrightarrow> P s'"
  shows "P s \<Longrightarrow> drain handle fs s = Inr s' \<Longrightarrow> P s'"
proof (induction fs arbitrary: s)
  case Nil
  then show ?case by simp
next
  case (Cons f fs)
  from Cons.prems(2) obtain n s1 where n: "map_of (futures s) f = Some n"
    and h: "handle n (s\<lparr>futures := filter (\<lambda>(k, v). k \<noteq> f) (futures s)\<rparr>) = Inr s1"
    and r: "drain handle fs s1 = Inr s'"
    by (auto split: option.splits sum.splits)
  from step [OF Cons.prems(1) n h] have "P s1" .
  from Cons.IH [OF this r] show ?case .
qed

lemma drain_measure:
  assumes step: "\<And>f n s s'. P s \<Longrightarrow> map_of (futures s) f = Some n
     \<Longrightarrow> handle n (s\<lparr>futures := filter (\<lambda>(k, v). k \<noteq> f) (futures s)\<rparr>) = Inr s'
     \<Longrightarrow> P s' \<and> (m s' :: nat) < m s"
  shows "P s \<Longrightarrow> drain handle fs s = Inr s' \<Longrightarrow> P s' \<and> (if fs = [] then m s' \<le> m s else m s' < m s)"
proof (induction fs arbitrary: s)
  case Nil
  then show ?case by simp
next
  case (Cons f fs)
  from Cons.prems(2) obtain n s1 where n: "map_of (futures s) f = Some n"
    and h: "handle n (s\<lparr>futures := filter (\<lambda>(k, v). k \<noteq> f) (futures s)\<rparr>) = Inr s1"
    and r: "drain handle fs s1 = Inr s'"
    by (auto split: option.splits sum.splits)
  from step [OF Cons.prems(1) n h] have s1: "P s1" "m s1 < m s" by simp_all
  from Cons.IH [OF s1(1) r] s1(2) show ?case by (auto split: if_splits)
qed

lemma crawl_loop_result:
  assumes step: "\<And>c c'. P (snd c) \<Longrightarrow> \<not> finished c \<Longrightarrow> loop_body handle mw c = Inr c'
     \<Longrightarrow> P (snd c')"
    and err: "\<And>c e. P (snd c) \<Longrightarrow> \<not> finished c \<Longrightarrow> loop_body handle mw c = Inl e \<Longrightarrow> E e"
    and run: "crawl_loop handle mw c = Some y" and init: "P (snd c)"
  shows "case y of Inl e \<Rightarrow> E e | Inr s \<Rightarrow> P s \<and> queue s = [] \<and> futures s = []"
proof -
  let ?Q = "\<lambda>y. case y of Inl e \<Rightarrow> E e | Inr s \<Rightarrow> P s \<and> queue s = [] \<and> futures s = []"
  have "handle = handle \<longrightarrow> mw = mw \<longrightarrow> P (snd c) \<longrightarrow> ?Q y"
  proof (rule crawl_loop.raw_induct
      [where P = "\<lambda>h m c y. h = handle \<longrightarrow> m = mw \<longrightarrow> P (snd c) \<longrightarrow> ?Q y", OF _ run])
    fix cl h m c y
    assume IH: "\<And>h m c y. cl h m c = Some y
        \<Longrightarrow> h = handle \<longrightarrow> m = mw \<longrightarrow> P (snd c) \<longrightarrow> ?Q y"
      and eq: "(if finished c then Some (Inr (snd c))
         else case loop_body h m c of Inl e \<Rightarrow> Some (Inl e) | Inr c' \<Rightarrow> cl h m c') = Some y"
    show "h = handle \<longrightarrow> m = mw \<longrightarrow> P (snd c) \<longrightarrow> ?Q y"
    proof (intro impI)
      assume h: "h = handle" and m: "m = mw" and p: "P (snd c)"
      show "?Q y"
      proof (cases "finished c")
        case True
        with eq p show ?thesis by (auto simp: finished_def)
      next
        case False
        show ?thesis
        proof (cases "loop_body handle mw c")
          case (Inl e)
          with eq False h m have "y = Inl e" by simp
          with err [OF p False Inl] show ?thesis by simp
        next
          case (Inr c')
          with eq False h m have "cl handle mw c' = Some y" by simp
          from IH [OF this] step [OF p False Inr] show ?thesis by simp
        qed
      qed
    qed
  qed
  with init show ?thesis by simp
qed

lemma crawl_loop_terminates:
  assumes step: "\<And>c c'. P c \<Longrightarrow> \<not> finished c \<Longrightarrow> loop_body handle mw c = Inr c'
     \<Longrightarrow> P c' \<and> (m c' :: nat) < m c"
  shows "P c \<Longrightarrow> \<exists>r. crawl_loop handle mw c = Some r"
proof (induction "m c" arbitrary: c rule: less_induct)
  case less
  show ?case
  proof (cases "finished c")
    case True
    then show ?thesis by (subst crawl_loop.simps) simp
  next
    case False
    show ?thesis
    proof (cases "loop_body handle mw c")
      case (Inl e)
      with False show ?thesis by (subst crawl_loop.simps) simp
    next
      case (Inr c')
      from step [OF less.prems False Inr] have "P c'" "m c' < m c" by simp_all
      from less.hyps [OF this(2) this(1)] obtain r where "crawl_loop handle mw c' = Some r" ..
      with False Inr show ?thesis by (subst crawl_loop.simps) simp
    qed
  qed
qed

lemma expanded_cong:
  "nodes s' = nodes s \<Longrightarrow> seen s' = seen s \<Longrightarrow> warnings s' = warnings s
   \<Longrightarrow> expanded L fetch s' j = expanded L fetch s j"
  by (simp add: expanded_def attached_def split: sum.splits)

lemma dispatch_main_inv:
  assumes "main_inv L fetch s"
  shows "main_inv L fetch (dispatch m s)"
proof -
  have p: "pending (dispatch m s) = pending s"
    by (simp add: pending_def dispatch_pending)
  have e: "\<And>j. expanded L fetch (dispatch m s) j = expanded L fetch s j"
    by (rule expanded_cong) (simp_all add: dispatch_frame)
  from assms have "distinct (map fst (futures s))"
    "\<forall>f \<in> set (map fst (futures s)). f < submitted s"
    by (simp_all add: main_inv_def)
  from dispatch_keys [OF this(2) this(1), of m] assms show ?thesis
    by (simp add: main_inv_def p e dispatch_frame)
qed

lemma loop_body_main_inv:
  assumes "main_inv L fetch (snd c)" and "loop_body (handle_result L fetch) m c = Inr c'"
  shows "main_inv L fetch (snd c')"
proof -
  let ?s1 = "dispatch m (snd c)"
  have i1: "main_inv L fetch ?s1" using assms(1) by (rule dispatch_main_inv)
  show ?thesis
  proof (cases "futures ?s1 = []")
    case True
    with assms(2) i1 show ?thesis by (auto simp: loop_body_def Let_def)
  next
    case False
    with assms(2) obtain fs where "drain (handle_result L fetch) fs ?s1 = Inr (snd c')"
      by (auto simp: loop_body_def Let_def split: sum.splits)
    with i1 show ?thesis
      by (rule drain_inv [where P = "main_inv L fetch", rotated]) (rule main_step)
  qed
qed

lemma initial_main_inv:
  "normalize_url L root_url = Inr n \<Longrightarrow>
   main_inv L fetch (initial_state \<lparr>name = root_name, url = root_url, depth = 0, children = [],
                  has_file_children = False\<rparr> n)"
  by (simp add: main_inv_def pending_def initial_state_def)

lemma crawl_main_inv:
  assumes "CatalogCrawler_crawl L fetch m sched root_name root_url = Some (Inr s)"
  shows "main_inv L fetch s \<and> queue s = [] \<and> futures s = []"
proof -
  let ?root = "\<lparr>name = root_name, url = root_url, depth = 0, children = [],
                  has_file_children = False\<rparr>"
  from assms obtain n where n: "normalize_url L root_url = Inr n" and m: "\<not> m \<le> 0"
    and run: "crawl_loop (handle_result L fetch) m (sched, initial_state ?root n) = Some (Inr s)"
    by (auto simp: CatalogCrawler_crawl_def Let_def split: sum.splits if_splits)
  have "case Inr s :: exn + CatalogNode crawl_state of Inl e \<Rightarrow> True
        | Inr s \<Rightarrow> main_inv L fetch s \<and> queue s = [] \<and> futures s = []"
  proof (rule crawl_loop_result [where P = "main_inv L fetch" and E = "\<lambda>e. True", OF _ _ run])
    show "main_inv L fetch (snd (sched, initial_state ?root n))"
      using initial_main_inv [OF n] by simp
  qed (auto intro: loop_body_main_inv)
  then show ?thesis by simp
qed

lemma example_run:
  "CatalogCrawler_crawl lib0 example_site 2 [[1, 0]] (S ''Root'') (S ''/c?id=0'')
     = Some (Inr example_result)"
  by code_simp

text \<open>
  Claim C10. In the tree that \<open>CatalogCrawler.crawl\<close> returns the root has depth 0 and
  the depth of every child is the depth of its parent plus 1. The nodes of the tree are
  nodes of the store, and the statement is shown for every node of the store.
\<close>

theorem depth_invariant:
  assumes "CatalogCrawler_crawl L fetch_entries max_workers sched root_name root_url = Some (Inr s)"
  shows "depth (nodes s ! 0) = 0
     \<and> (\<forall>j < length (nodes s). \<forall>c \<in> set (children (nodes s ! j)).
           c < length (nodes s) \<and> depth (nodes s ! c) = depth (nodes s ! j) + 1)"
proof -
  from crawl_main_inv [OF assms] have inv: "main_inv L fetch_entries s"
    and fin: "queue s = []" "futures s = []" by simp_all
  have p: "pending s = []" using fin by (simp add: pending_def)
  from inv have d0: "depth (nodes s ! 0) = 0" by (simp add: main_inv_def)
  have "c < length (nodes s) \<and> depth (nodes s ! c) = depth (nodes s ! j) + 1"
    if j: "j < length (nodes s)" and c: "c \<in> set (children (nodes s ! j))" for j c
  proof -
    from inv j p have ex: "expanded L fetch_entries s j" by (simp add: main_inv_def)
    show ?thesis
    proof (cases "fetch_entries (url (nodes s ! j))")
      case (Inl exc)
      with ex c show ?thesis by (simp add: expanded_def)
    next
      case (Inr entries)
      with ex obtain a new where at: "attached s j a new" by (auto simp: expanded_def)
      with c obtain k where k: "c = a + k" "k < length new"
        by (auto simp: attached_def) (metis add_diff_inverse_nat nat_add_left_cancel_less not_le)
      with at show ?thesis by (auto simp: attached_def static_def)
    qed
  qed
  with d0 show ?thesis by blast
qed

theorem depth_invariant_witness:
  "CatalogCrawler_crawl lib0 example_site 2 [[1, 0]] (S ''Root'') (S ''/c?id=0'')
     = Some (Inr example_result)
   \<and> depth (nodes example_result ! 0) = 0
   \<and> 1 < length (nodes example_result)
   \<and> depth (nodes example_result ! 1) = depth (nodes example_result ! 0) + 1"
proof -
  note t = depth_invariant [OF example_run]
  have j: "0 < length (nodes example_result)" by (simp add: example_result_def)
  have c: "1 \<in> set (children (nodes example_result ! 0))" by (simp add: example_result_def)
  from t have "\<forall>j < length (nodes example_result).
      \<forall>c \<in> set (children (nodes example_result ! j)).
        c < length (nodes example_result)
        \<and> depth (nodes example_result ! c) = depth (nodes example_result ! j) + 1" ..
  from this [rule_format, OF j c] t example_run show ?thesis by blast
qed

lemma dispatch_submitted:
  "submitted (dispatch m s) + length (queue (dispatch m s)) = submitted s + length (queue s)"
proof (induction m s rule: dispatch.induct)
  case (1 m s)
  show ?case
  proof (cases "queue s")
    case Nil
    then show ?thesis by (simp add: dispatch.simps [of m s])
  next
    case (Cons node rest)
    show ?thesis
    proof (cases "int (length (futures s)) < m")
      case True
      with Cons 1 show ?thesis by (simp add: dispatch.simps [of m s])
    next
      case False
      with Cons show ?thesis by (simp add: dispatch.simps [of m s])
    qed
  qed
qed

lemma main_inv_length: "main_inv L fetch s \<Longrightarrow> length (seen s) = length (nodes s)"
  by (metis length_map main_inv_def)

lemma main_step_counted:
  assumes "main_inv L fetch s \<and> counted s" and "map_of (futures s) f = Some n"
    and "handle_result L fetch n (s\<lparr>futures := filter (\<lambda>(k, v). k \<noteq> f) (futures s)\<rparr>) = Inr s'"
  shows "main_inv L fetch s' \<and> counted s'"
proof -
  from assms(1) have inv: "main_inv L fetch s" and c: "counted s" by simp_all
  note st = main_step_full [OF inv assms(2,3)]
  then have inv': "main_inv L fetch s'" by simp
  from st main_inv_length [OF inv] main_inv_length [OF inv'] c
  have "counted s'" by (simp add: counted_def)
  with inv' show ?thesis by simp
qed

lemma crawl_main_counted:
  assumes "CatalogCrawler_crawl L fetch m sched root_name root_url = Some (Inr s)"
  shows "submitted s = length (nodes s)"
proof -
  let ?root = "\<lparr>name = root_name, url = root_url, depth = 0, children = [],
                  has_file_children = False\<rparr>"
  let ?P = "\<lambda>s. main_inv L fetch s \<and> counted s"
  from assms obtain n where n: "normalize_url L root_url = Inr n" and m: "\<not> m \<le> 0"
    and run: "crawl_loop (handle_result L fetch) m (sched, initial_state ?root n) = Some (Inr s)"
    by (auto simp: CatalogCrawler_crawl_def Let_def split: sum.splits if_splits)
  have body: "?P (snd c')" if p: "?P (snd c)" and b: "loop_body (handle_result L fetch) m c = Inr c'"
    for c c'
  proof -
    let ?s1 = "dispatch m (snd c)"
    have i1: "?P ?s1"
      using p dispatch_submitted [of m "snd c"]
      by (simp add: dispatch_main_inv counted_def dispatch_frame)
    show ?thesis
    proof (cases "futures ?s1 = []")
      case True
      with b i1 show ?thesis by (auto simp: loop_body_def Let_def)
    next
      case False
      with b obtain fs where "drain (handle_result L fetch) fs ?s1 = Inr (snd c')"
        by (auto simp: loop_body_def Let_def split: sum.splits)
      with i1 show ?thesis
        by (rule drain_inv [where P = ?P, rotated]) (rule main_step_counted)
    qed
  qed
  have "case Inr s :: exn + CatalogNode crawl_state of Inl e \<Rightarrow> True
        | Inr s \<Rightarrow> ?P s \<and> queue s = [] \<and> futures s = []"
  proof (rule crawl_loop_result [where P = ?P and E = "\<lambda>e. True", OF _ _ run])
    show "?P (snd (sched, initial_state ?root n))"
      using initial_main_inv [OF n]
      by (simp add: counted_def) (simp add: initial_state_def)
  next
    fix c c' assume "?P (snd c)" "loop_body (handle_result L fetch) m c = Inr c'"
    then show "?P (snd c')" by (rule body)
  qed simp
  then have "counted s" and "queue s = []" by simp_all
  then show ?thesis unfolding counted_def by simp
qed

text \<open>
  Claim C7, as amended. For every node of the tree that \<open>CatalogCrawler.crawl\<close> returns,
  \<open>has_file_children\<close> is true if and only if the fetch of the node succeeded and the
  parsed page has at least one FILE entry. The flag is assigned when the fetch of the node
  is handled, and that happens once per node: the number of submitted fetches is the
  number of nodes. (FILE entries are not attached as children by this crawler.)
\<close>

theorem has_file_children_iff:
  assumes "CatalogCrawler_crawl L fetch_entries max_workers sched root_name root_url = Some (Inr s)"
  shows "(\<forall>j < length (nodes s).
            has_file_children (nodes s ! j) \<longleftrightarrow>
              (\<exists>entries. fetch_entries (url (nodes s ! j)) = Inr entries
                 \<and> list_ex (\<lambda>entry. entry_kind entry = S ''FILE'') entries))
     \<and> submitted s = length (nodes s)"
proof -
  from crawl_main_inv [OF assms] have inv: "main_inv L fetch_entries s"
    and fin: "queue s = []" "futures s = []" by simp_all
  have p: "pending s = []" using fin by (simp add: pending_def)
  have "has_file_children (nodes s ! j) \<longleftrightarrow>
          (\<exists>entries. fetch_entries (url (nodes s ! j)) = Inr entries
             \<and> list_ex (\<lambda>entry. entry_kind entry = S ''FILE'') entries)"
    if j: "j < length (nodes s)" for j
  proof -
    from inv j p have "expanded L fetch_entries s j" by (simp add: main_inv_def)
    then show ?thesis
      by (cases "fetch_entries (url (nodes s ! j))") (simp_all add: expanded_def)
  qed
  with crawl_main_counted [OF assms] show ?thesis by blast
qed

theorem has_file_children_iff_witness:
  "CatalogCrawler_crawl lib0 example_site 2 [[1, 0]] (S ''Root'') (S ''/c?id=0'')
     = Some (Inr example_result)
   \<and> has_file_children (nodes example_result ! 1)
        = (\<exists>entries. example_site (url (nodes example_result ! 1)) = Inr entries
             \<and> list_ex (\<lambda>entry. entry_kind entry = S ''FILE'') entries)
   \<and> submitted example_result = length (nodes example_result)"
proof -
  note t = has_file_children_iff [OF example_run]
  have j: "1 < length (nodes example_result)" by (simp add: example_result_def)
  from t have "\<forall>j < length (nodes example_result).
      has_file_children (nodes example_result ! j) \<longleftrightarrow>
        (\<exists>entries. example_site (url (nodes example_result ! j)) = Inr entries
           \<and> list_ex (\<lambda>entry. entry_kind entry = S ''FILE'') entries)" ..
  from this [rule_format, OF j] t example_run show ?thesis by blast
qed

text \<open>
  The claim C7 as stated fails: node A of the example has the flag set and no child at
  all, its only FILE entry D is not a node of the tree.
\<close>

theorem has_file_children_counterexample:
  "CatalogCrawler_crawl lib0 example_site 2 [[1, 0]] (S ''Root'') (S ''/c?id=0'')
     = Some (Inr example_result)
   \<and> has_file_children (nodes example_result ! 1)
   \<and> children (nodes example_result ! 1) = []"
  using example_run by (simp add: example_result_def)

lemma own_append: "r < length xs \<Longrightarrow> own (xs @ ys) r = own xs r"
  by (simp add: own_def nth_append)

lemma full_add_children_closed:
  assumes "full_add_children L node es s = Inr s'" and "node < length (nodes s)"
  shows "nodes s' = (nodes s)[node := (nodes s ! node)
            \<lparr>full_children := full_children (nodes s ! node)
               @ [length (nodes s) ..< length (nodes s) + length es]\<rparr>]
          @ map full_child es
     \<and> seen s' = seen s @ map snd (full_fresh L (seen s) (length (nodes s)) es)
     \<and> queue s' = queue s @ map fst (full_fresh L (seen s) (length (nodes s)) es)
     \<and> futures s' = futures s \<and> submitted s' = submitted s \<and> warnings s' = warnings s
     \<and> (\<forall>e \<in> set es. \<forall>x. eid L e \<noteq> Some (Inl x))"
  using assms
proof (induction es arbitrary: s)
  case Nil
  then show ?case by simp
next
  case (Cons e es)
  obtain ename eurl ekind where e: "e = (ename, eurl, ekind)" by (cases e)
  let ?ns = "nodes s"
  let ?a = "length ?ns"
  let ?s1 = "s\<lparr>nodes := ?ns[node := (?ns ! node)
                   \<lparr>full_children := full_children (?ns ! node) @ [?a]\<rparr>] @ [full_child e]\<rparr>"
  have at: "(?ns[node := (?ns ! node)
                   \<lparr>full_children := full_children (?ns ! node) @ [?a]\<rparr>] @ [full_child e]) ! node
      = (?ns ! node)\<lparr>full_children := full_children (?ns ! node) @ [?a]\<rparr>"
    using Cons.prems(2) by (simp add: nth_append)
  have lt: "node < length (nodes ?s1)" using Cons.prems(2) by simp
  have upt: "[?a ..< Suc (?a + length es)] = ?a # [Suc ?a ..< Suc (?a + length es)]"
    by (rule upt_conv_Cons) simp
  have shape: "\<And>t. nodes t = (nodes ?s1)[node := (nodes ?s1 ! node)
            \<lparr>full_children := full_children (nodes ?s1 ! node)
               @ [length (nodes ?s1) ..< length (nodes ?s1) + length es]\<rparr>]
          @ map full_child es
      \<Longrightarrow> nodes t = ?ns[node := (?ns ! node)
            \<lparr>full_children := full_children (?ns ! node) @ [?a ..< ?a + length (e # es)]\<rparr>]
          @ map full_child (e # es)"
    using Cons.prems(2) by (simp del: upt_Suc add: at upt list_update_append1)
  show ?case
  proof (cases "ekind = S ''FOLDER''")
    case False
    with Cons.prems(1) e have run: "full_add_children L node es ?s1 = Inr s'"
      by (simp add: Let_def full_child_def)
    note ih = Cons.IH [OF run lt]
    from ih have n: "nodes s' = ?ns[node := (?ns ! node)
            \<lparr>full_children := full_children (?ns ! node) @ [?a ..< ?a + length (e # es)]\<rparr>]
          @ map full_child (e # es)"
      by (intro shape) simp
    from ih False e n show ?thesis by (simp add: eid_def)
  next
    case True
    show ?thesis
    proof (cases "normalize_url L eurl")
      case (Inl x)
      with Cons.prems(1) e True show ?thesis by (simp add: Let_def)
    next
      case (Inr nz)
      show ?thesis
      proof (cases "nz \<in> set (seen s)")
        case in_seen: True
        with Cons.prems(1) e True Inr have run: "full_add_children L node es ?s1 = Inr s'"
          by (simp add: Let_def full_child_def)
        note ih = Cons.IH [OF run lt]
        from ih have n: "nodes s' = ?ns[node := (?ns ! node)
            \<lparr>full_children := full_children (?ns ! node) @ [?a ..< ?a + length (e # es)]\<rparr>]
          @ map full_child (e # es)"
          by (intro shape) simp
        from ih True Inr in_seen e n show ?thesis by (simp add: eid_def)
      next
        case fresh: False
        let ?s2 = "?s1\<lparr>seen := seen s @ [nz], queue := queue s @ [?a]\<rparr>"
        from Cons.prems(1) e True Inr fresh
        have run: "full_add_children L node es ?s2 = Inr s'"
          by (simp add: Let_def full_child_def)
        have lt2: "node < length (nodes ?s2)" using Cons.prems(2) by simp
        note ih = Cons.IH [OF run lt2]
        from ih have n: "nodes s' = ?ns[node := (?ns ! node)
            \<lparr>full_children := full_children (?ns ! node) @ [?a ..< ?a + length (e # es)]\<rparr>]
          @ map full_child (e # es)"
          by (intro shape) simp
        from ih True Inr fresh e n show ?thesis by (simp add: eid_def)
      qed
    qed
  qed
qed

lemma full_fresh_range:
  "(r, n) \<in> set (full_fresh L sn a es) \<Longrightarrow> a \<le> r \<and> r < a + length es"
proof (induction L sn a es rule: full_fresh.induct)
  case (1 L sn a)
  then show ?case by simp
next
  case (2 L sn a ename eurl ekind rest)
  then show ?case
    by (cases "normalize_url L eurl") (fastforce split: if_splits)+
qed

lemma full_fresh_spec:
  assumes "distinct sn" and "(\<lambda>n. Some (Inr n)) ` set sn = set xs - {None}"
    and "\<forall>e \<in> set es. \<forall>x. eid L e \<noteq> Some (Inl x)"
  shows "distinct (sn @ map snd (full_fresh L sn (length xs) es))
     \<and> (\<lambda>n. Some (Inr n)) ` set (sn @ map snd (full_fresh L sn (length xs) es))
          = set (xs @ map (eid L) es) - {None}
     \<and> set (map fst (full_fresh L sn (length xs) es))
          = {r. length xs \<le> r \<and> own (xs @ map (eid L) es) r}
     \<and> distinct (map fst (full_fresh L sn (length xs) es))"
  using assms
proof (induction es arbitrary: sn xs)
  case Nil
  then show ?case by (auto simp: own_def)
next
  case (Cons e es)
  obtain ename eurl ekind where e: "e = (ename, eurl, ekind)" by (cases e)
  have ok: "\<forall>e \<in> set es. \<forall>x. eid L e \<noteq> Some (Inl x)" using Cons.prems(3) by simp
  let ?y = "eid L e"
  have split: "xs @ map (eid L) (e # es) = (xs @ [?y]) @ map (eid L) es" by simp
  have len: "length (xs @ [?y]) = Suc (length xs)" by simp
  define zs where "zs = (xs @ [?y]) @ map (eid L) es"
  have own_here: "own zs (length xs) \<longleftrightarrow> ?y \<noteq> None \<and> ?y \<notin> set xs"
    by (simp add: own_def nth_append zs_def)
  have "{r. length xs \<le> r \<and> own zs r}
      = (if ?y \<noteq> None \<and> ?y \<notin> set xs then {length xs} else {})
        \<union> {r. Suc (length xs) \<le> r \<and> own zs r}"
  proof (intro set_eqI iffI)
    fix r assume "r \<in> {r. length xs \<le> r \<and> own zs r}"
    then have r: "length xs \<le> r" "own zs r" by simp_all
    show "r \<in> (if ?y \<noteq> None \<and> ?y \<notin> set xs then {length xs} else {})
        \<union> {r. Suc (length xs) \<le> r \<and> own zs r}"
    proof (cases "r = length xs")
      case True
      with r own_here show ?thesis by simp
    next
      case False
      with r show ?thesis by simp
    qed
  next
    fix r assume "r \<in> (if ?y \<noteq> None \<and> ?y \<notin> set xs then {length xs} else {})
        \<union> {r. Suc (length xs) \<le> r \<and> own zs r}"
    then show "r \<in> {r. length xs \<le> r \<and> own zs r}"
      using own_here by (auto split: if_splits)
  qed
  then have range: "{r. length xs \<le> r \<and> own ((xs @ [?y]) @ map (eid L) es) r}
      = (if ?y \<noteq> None \<and> ?y \<notin> set xs then {length xs} else {})
        \<union> {r. Suc (length xs) \<le> r \<and> own ((xs @ [?y]) @ map (eid L) es) r}"
    by (simp only: zs_def)
  show ?case
  proof (cases "ekind = S ''FOLDER''")
    case False
    then have y: "?y = None" by (simp add: eid_def e)
    have k: "(\<lambda>n. Some (Inr n)) ` set sn = set (xs @ [?y]) - {None}"
      using Cons.prems(2) y by auto
    from Cons.IH [OF Cons.prems(1) k ok] False y range show ?thesis
      unfolding split by (simp add: e len del: append_assoc)
  next
    case True
    from Cons.prems(3) obtain nz where nz: "normalize_url L eurl = Inr nz"
      by (cases "normalize_url L eurl") (auto simp: eid_def e True)
    then have y: "?y = Some (Inr nz)" by (simp add: eid_def e True)
    show ?thesis
    proof (cases "nz \<in> set sn")
      case in_seen: True
      then have yx: "?y \<in> set xs" using Cons.prems(2) y by auto
      have k: "(\<lambda>n. Some (Inr n)) ` set sn = set (xs @ [?y]) - {None}"
        using Cons.prems(2) yx y by auto
      from Cons.IH [OF Cons.prems(1) k ok] True nz in_seen y yx range show ?thesis
        unfolding split by (simp add: e len del: append_assoc)
    next
      case fresh: False
      have yx: "?y \<notin> set xs"
      proof
        assume "?y \<in> set xs"
        then have "Some (Inr nz) \<in> set xs - {None}" using y by simp
        then have "Some (Inr nz :: exn + pystr) \<in> (\<lambda>n. Some (Inr n)) ` set sn"
          unfolding Cons.prems(2) .
        then show False using fresh by auto
      qed
      have d: "distinct (sn @ [nz])" using Cons.prems(1) fresh by simp
      have k: "(\<lambda>n. Some (Inr n)) ` set (sn @ [nz]) = set (xs @ [?y]) - {None}"
        using Cons.prems(2) y by auto
      note ih = Cons.IH [OF d k ok]
      have notin: "length xs \<notin> set (map fst (full_fresh L (sn @ [nz]) (Suc (length xs)) es))"
        using full_fresh_range [of "length xs" _ L "sn @ [nz]" "Suc (length xs)" es] by auto
      from ih True nz fresh y yx range notin show ?thesis
        unfolding split by (simp add: e len del: append_assoc)
    qed
  qed
qed

lemma full_expanded_frame:
  assumes ex: "full_expanded L fetch s j"
    and same: "nodes s' ! j = nodes s ! j"
    and len: "length (nodes s) \<le> length (nodes s')"
    and st: "\<forall>i < length (nodes s). fstatic (nodes s' ! i) = fstatic (nodes s ! i)"
    and wn: "set (warnings s) \<subseteq> set (warnings s')"
  shows "full_expanded L fetch s' j"
proof (cases "fetch (full_url (nodes s ! j))")
  case (Inl exc)
  with ex same wn show ?thesis by (auto simp: full_expanded_def)
next
  case (Inr entries)
  with ex obtain a where a: "j < a" "a + length entries \<le> length (nodes s)"
      "full_children (nodes s ! j) = [a ..< a + length entries]"
      "\<forall>k < length entries. fstatic (nodes s ! (a + k)) = entries ! k"
    by (auto simp: full_expanded_def)
  have "\<forall>k < length entries. fstatic (nodes s' ! (a + k)) = entries ! k"
  proof (intro allI impI)
    fix k assume k: "k < length entries"
    then have "a + k < length (nodes s)" using a(2) by simp
    with st a(4) k show "fstatic (nodes s' ! (a + k)) = entries ! k" by simp
  qed
  with a len Inr same show ?thesis
    by (auto simp: full_expanded_def intro!: exI [of _ a])
qed

lemma full_step_full:
  assumes inv: "full_inv L fetch s" and pop: "map_of (futures s) f = Some n"
    and run: "full_handle_result L fetch n
                (s\<lparr>futures := filter (\<lambda>(k, v). k \<noteq> f) (futures s)\<rparr>) = Inr s'"
  shows "full_inv L fetch s' \<and> futures s' = filter (\<lambda>(k, v). k \<noteq> f) (futures s)
     \<and> length (futures s') < length (futures s)
     \<and> length (seen s') + length (queue s) = length (seen s) + length (queue s')
     \<and> full_url ` (set (nodes s') \<inter> {x. full_kind x = S ''FOLDER''})
          \<subseteq> full_url ` (set (nodes s) \<inter> {x. full_kind x = S ''FOLDER''})
             \<union> full_links fetch (full_url (nodes s ! n))
     \<and> n < length (nodes s) \<and> submitted s' = submitted s
     \<and> (\<exists>x. seen s' = seen s @ x)
     \<and> (\<forall>i < length (nodes s). fstatic (nodes s' ! i) = fstatic (nodes s ! i))"
proof -
  let ?fs = "filter (\<lambda>(k, v). k \<noteq> f) (futures s)"
  let ?s0 = "s\<lparr>futures := ?fs\<rparr>"
  let ?ns = "nodes s"
  let ?a = "length ?ns"
  from inv have o0: "own (ids L s) 0"
    and dseen: "distinct (seen s)"
    and sids: "(\<lambda>n. Some (Inr n)) ` set (seen s) = set (ids L s) - {None}"
    and dpend: "distinct (pending s)" and opend: "\<forall>j \<in> set (pending s). own (ids L s) j"
    and dkeys: "distinct (map fst (futures s))"
    and vkeys: "\<forall>f \<in> set (map fst (futures s)). f < submitted s"
    and body: "\<forall>j < ?a. if j \<in> set (pending s) \<or> \<not> own (ids L s) j
           then full_children (?ns ! j) = [] else full_expanded L fetch s j"
    by (simp_all add: full_inv_def)
  have lids: "length (ids L s) = ?a" by (simp add: ids_def)
  from dpend have dv: "distinct (map snd (futures s))" and dq: "distinct (queue s)"
    and disj: "set (map snd (futures s)) \<inter> set (queue s) = {}"
    by (simp_all add: pending_def)
  note pv = pop_values [OF pop dkeys dv]
  have npend: "n \<in> set (pending s)" using pv(4) by (simp add: pending_def)
  have nown: "own (ids L s) n" using npend opend by blast
  have nlt: "n < ?a" using nown lids by (simp add: own_def)
  have nblank: "full_children (?ns ! n) = []" using body nlt npend by auto
  have nq: "n \<notin> set (queue s)" using pv(4) disj by auto
  have p0: "set (pending ?s0) = set (pending s) - {n}"
    using pv(1) nq by (auto simp: pending_def)
  have dp0: "distinct (pending ?s0)"
    using pv(2) dq disj pv(1) by (auto simp: pending_def)
  have keys0: "distinct (map fst ?fs)" "\<forall>f \<in> set (map fst ?fs). f < submitted s"
    using pv(3) vkeys by auto
  have shrink: "length ?fs < length (futures s)"
    using map_of_SomeD [OF pop] by (intro length_filter_less [of "(f, n)"]) auto
  show ?thesis
  proof (cases "fetch (full_url (?ns ! n))")
    case (Inl exc)
    with run have s': "s' = ?s0\<lparr>warnings := warnings s @ [(full_url (?ns ! n), exc)]\<rparr>"
      by (simp add: full_handle_result_def)
    have pend': "pending s' = pending ?s0" by (simp add: s' pending_def)
    have ids': "ids L s' = ids L s" by (simp add: s' ids_def)
    have "\<forall>j < length (nodes s'). if j \<in> set (pending s') \<or> \<not> own (ids L s') j
           then full_children (nodes s' ! j) = [] else full_expanded L fetch s' j"
    proof (intro allI impI)
      fix j assume j: "j < length (nodes s')"
      then have ja: "j < ?a" by (simp add: s')
      show "if j \<in> set (pending s') \<or> \<not> own (ids L s') j
           then full_children (nodes s' ! j) = [] else full_expanded L fetch s' j"
      proof (cases "j \<in> set (pending s') \<or> \<not> own (ids L s') j")
        case True
        then have "j \<in> set (pending s) \<or> \<not> own (ids L s) j" using pend' p0 ids' by auto
        with body ja True show ?thesis by (simp add: s')
      next
        case False
        show ?thesis
        proof (cases "j = n")
          case True
          have "full_expanded L fetch s' n"
            using Inl nblank by (simp add: full_expanded_def s')
          with False True show ?thesis by simp
        next
          case jn: False
          with False pend' p0 ids' have "j \<notin> set (pending s)" "own (ids L s) j" by simp_all
          with body ja have "full_expanded L fetch s j" by auto
          then have "full_expanded L fetch s' j"
            by (rule full_expanded_frame) (auto simp: s')
          with False show ?thesis by simp
        qed
      qed
    qed
    moreover have "own (ids L s') 0" "distinct (seen s')"
      "(\<lambda>n. Some (Inr n)) ` set (seen s') = set (ids L s') - {None}"
      using o0 dseen sids by (simp_all add: ids') (simp_all add: s')
    moreover have "distinct (pending s')" using dp0 pend' by simp
    moreover have "\<forall>j \<in> set (pending s'). own (ids L s') j"
      using opend p0 pend' ids' by simp
    moreover have "distinct (map fst (futures s'))"
      "\<forall>f \<in> set (map fst (futures s')). f < submitted s'"
      using keys0 by (simp_all add: s')
    ultimately have "full_inv L fetch s'" unfolding full_inv_def by blast
    then show ?thesis using shrink nlt by (simp add: s')
  next
    case (Inr es)
    define fr where "fr = full_fresh L (seen s) ?a es"
    from run Inr have add: "full_add_children L n es ?s0 = Inr s'"
      by (simp add: full_handle_result_def)
    have n0: "n < length (nodes ?s0)" using nlt by simp
    note cl = full_add_children_closed [OF add n0]
    have nodes': "nodes s' = ?ns[n := (?ns ! n)\<lparr>full_children := [?a ..< ?a + length es]\<rparr>]
                     @ map full_child es"
      using cl nblank by simp
    have seen': "seen s' = seen s @ map snd fr" using cl by (simp add: fr_def)
    have queue': "queue s' = queue s @ map fst fr" using cl by (simp add: fr_def)
    have rest': "futures s' = ?fs" "submitted s' = submitted s" "warnings s' = warnings s"
      using cl by simp_all
    have esok: "\<forall>e \<in> set es. \<forall>x. eid L e \<noteq> Some (Inl x)" using cl by simp
    have len': "length (nodes s') = ?a + length es" by (simp add: nodes')
    have old: "\<And>j. j < ?a \<Longrightarrow> j \<noteq> n \<Longrightarrow> nodes s' ! j = ?ns ! j"
      by (simp add: nodes' nth_append)
    have atn: "nodes s' ! n = (?ns ! n)\<lparr>full_children := [?a ..< ?a + length es]\<rparr>"
      using nlt by (simp add: nodes' nth_append)
    have fresh: "\<And>k. k < length es \<Longrightarrow> nodes s' ! (?a + k) = full_child (es ! k)"
      by (simp add: nodes' nth_append)
    have fsc: "\<And>e. fstatic (full_child e) = e"
      by (simp add: fstatic_def full_child_def split: prod.splits)
    have stat: "\<forall>i < ?a. fstatic (nodes s' ! i) = fstatic (?ns ! i)"
    proof (intro allI impI)
      fix i assume "i < ?a"
      then show "fstatic (nodes s' ! i) = fstatic (?ns ! i)"
        by (cases "i = n") (simp_all add: old atn fstatic_def)
    qed
    have ids': "ids L s' = ids L s @ map (eid L) es"
    proof (rule nth_equalityI)
      show "length (ids L s') = length (ids L s @ map (eid L) es)"
        by (simp add: ids_def len')
      fix i assume "i < length (ids L s')"
      then have i: "i < ?a + length es" by (simp add: ids_def len')
      show "ids L s' ! i = (ids L s @ map (eid L) es) ! i"
      proof (cases "i < ?a")
        case True
        with stat i show ?thesis by (simp add: ids_def nth_append len')
      next
        case False
        with i obtain k where k: "i = ?a + k" "k < length es"
          by (metis add_diff_inverse_nat nat_add_left_cancel_less)
        with fresh [of k] fsc show ?thesis by (simp add: ids_def nth_append len')
      qed
    qed
    note spec = full_fresh_spec [OF dseen sids esok, unfolded lids, folded fr_def ids']
    have frset: "set (map fst fr) = {r. ?a \<le> r \<and> own (ids L s') r}" using spec by simp
    have pend': "pending s' = pending ?s0 @ map fst fr"
      by (simp add: pending_def queue' rest')
    have oldlt: "\<forall>j \<in> set (pending s). j < ?a" using opend lids by (auto simp: own_def)
    have ownold: "\<And>j. j < ?a \<Longrightarrow> own (ids L s') j = own (ids L s) j"
      using lids by (simp add: ids' own_append)
    have "0 < ?a" using nlt by linarith
    from ownold [OF this] o0 have i1: "own (ids L s') 0" by simp
    have i4: "distinct (seen s')"
      "(\<lambda>n. Some (Inr n)) ` set (seen s') = set (ids L s') - {None}"
      using spec by (simp_all add: seen')
    have i5: "distinct (pending s')"
      using dp0 p0 oldlt spec frset by (auto simp: pend')
    have i6: "\<forall>j \<in> set (pending s'). own (ids L s') j"
    proof
      fix j assume "j \<in> set (pending s')"
      then consider "j \<in> set (pending s)" | "j \<in> set (map fst fr)"
        using p0 by (auto simp: pend')
      then show "own (ids L s') j"
      proof cases
        case 1
        with oldlt opend ownold [of j] show ?thesis by auto
      next
        case 2
        with frset show ?thesis by simp
      qed
    qed
    have i7: "distinct (map fst (futures s'))" "\<forall>f \<in> set (map fst (futures s')). f < submitted s'"
      using keys0 by (simp_all add: rest')
    have i8: "\<forall>j < length (nodes s'). if j \<in> set (pending s') \<or> \<not> own (ids L s') j
           then full_children (nodes s' ! j) = [] else full_expanded L fetch s' j"
    proof (intro allI impI)
      fix j assume j: "j < length (nodes s')"
      show "if j \<in> set (pending s') \<or> \<not> own (ids L s') j
           then full_children (nodes s' ! j) = [] else full_expanded L fetch s' j"
      proof (cases "j < ?a")
        case ge: False
        with j len' obtain k where k: "j = ?a + k" "k < length es"
          by (metis add_diff_inverse_nat nat_add_left_cancel_less)
        have blank: "full_children (nodes s' ! j) = []"
          using fresh [of k] k by (simp add: full_child_def split: prod.splits)
        have "j \<in> set (pending s') \<or> \<not> own (ids L s') j"
          using frset ge by (auto simp: pend')
        with blank show ?thesis by simp
      next
        case ja: True
        show ?thesis
        proof (cases "j = n")
          case True
          have np: "n \<notin> set (pending s')"
            using p0 frset nlt by (auto simp: pend')
          have "\<forall>k < length es. fstatic (nodes s' ! (?a + k)) = es ! k"
            using fresh fsc by simp
          then have "full_expanded L fetch s' n"
            using Inr atn nlt
            by (auto simp: full_expanded_def len' intro!: exI [of _ ?a])
          with np nown ownold [OF nlt] True show ?thesis by simp
        next
          case jn: False
          have pj: "j \<in> set (pending s') \<longleftrightarrow> j \<in> set (pending s)"
            using p0 frset ja jn by (auto simp: pend')
          show ?thesis
          proof (cases "j \<in> set (pending s) \<or> \<not> own (ids L s) j")
            case True
            with body ja have "full_children (?ns ! j) = []" by auto
            with True pj ownold [OF ja] old [OF ja jn] show ?thesis by simp
          next
            case False
            with body ja have "full_expanded L fetch s j" by auto
            then have "full_expanded L fetch s' j"
            proof (rule full_expanded_frame)
              show "nodes s' ! j = nodes s ! j" by (rule old [OF ja jn])
              show "length (nodes s) \<le> length (nodes s')" by (simp add: len')
              show "\<forall>i < length (nodes s). fstatic (nodes s' ! i) = fstatic (nodes s ! i)"
                by (rule stat)
              show "set (warnings s) \<subseteq> set (warnings s')" by (simp add: rest')
            qed
            with False pj ownold [OF ja] show ?thesis by simp
          qed
        qed
      qed
    qed
    from i1 i4 i5 i6 i7 i8 have "full_inv L fetch s'" unfolding full_inv_def by blast
    moreover have "length (seen s') + length (queue s) = length (seen s) + length (queue s')"
      by (simp add: seen' queue')
    moreover have "full_url ` (set (nodes s') \<inter> {x. full_kind x = S ''FOLDER''})
          \<subseteq> full_url ` (set (nodes s) \<inter> {x. full_kind x = S ''FOLDER''})
             \<union> full_links fetch (full_url (nodes s ! n))"
    proof
      fix u assume "u \<in> full_url ` (set (nodes s') \<inter> {x. full_kind x = S ''FOLDER''})"
      then obtain j where j: "j < length (nodes s')" "u = full_url (nodes s' ! j)"
          "full_kind (nodes s' ! j) = S ''FOLDER''"
        by (auto simp: in_set_conv_nth)
      show "u \<in> full_url ` (set (nodes s) \<inter> {x. full_kind x = S ''FOLDER''})
             \<union> full_links fetch (full_url (nodes s ! n))"
      proof (cases "j < ?a")
        case True
        then have "fstatic (nodes s' ! j) = fstatic (?ns ! j)" using stat by simp
        with j have "u = full_url (?ns ! j)" "full_kind (?ns ! j) = S ''FOLDER''"
          by (simp_all add: fstatic_def)
        moreover have "?ns ! j \<in> set ?ns" using True by simp
        ultimately have "u \<in> full_url ` (set (nodes s) \<inter> {x. full_kind x = S ''FOLDER''})"
          by blast
        then show ?thesis by simp
      next
        case False
        with j len' obtain k where k: "j = ?a + k" "k < length es"
          by (metis add_diff_inverse_nat nat_add_left_cancel_less)
        obtain en eu ek where ek: "es ! k = (en, eu, ek)" by (cases "es ! k")
        with fresh [of k] k j have "u = eu" "ek = S ''FOLDER''"
          by (simp_all add: full_child_def)
        moreover have "es ! k \<in> set es" using k by simp
        ultimately show ?thesis using Inr ek by (auto simp: full_links_def)
      qed
    qed
    moreover have "\<exists>x. seen s' = seen s @ x" using seen' by blast
    ultimately show ?thesis using shrink nlt stat by (simp add: rest')
  qed
qed

lemma full_expanded_cong:
  "nodes s' = nodes s \<Longrightarrow> warnings s' = warnings s
   \<Longrightarrow> full_expanded L fetch s' j = full_expanded L fetch s j"
  by (simp add: full_expanded_def split: sum.splits)

lemma dispatch_full_inv:
  assumes "full_inv L fetch s"
  shows "full_inv L fetch (dispatch m s)"
proof -
  have p: "pending (dispatch m s) = pending s"
    by (simp add: pending_def dispatch_pending)
  have e: "\<And>j. full_expanded L fetch (dispatch m s) j = full_expanded L fetch s j"
    by (rule full_expanded_cong) (simp_all add: dispatch_frame)
  have i: "ids L (dispatch m s) = ids L s" by (simp add: ids_def dispatch_frame)
  from assms have "distinct (map fst (futures s))"
    "\<forall>f \<in> set (map fst (futures s)). f < submitted s"
    by (simp_all add: full_inv_def)
  from dispatch_keys [OF this(2) this(1), of m] assms show ?thesis
    by (simp add: full_inv_def p e i dispatch_frame)
qed

lemma full_step:
  assumes "full_inv L fetch s" and "map_of (futures s) f = Some n"
    and "full_handle_result L fetch n
           (s\<lparr>futures := filter (\<lambda>(k, v). k \<noteq> f) (futures s)\<rparr>) = Inr s'"
  shows "full_inv L fetch s'"
  using full_step_full [OF assms] by simp

lemma loop_body_full_inv:
  assumes "full_inv L fetch (snd c)" and "loop_body (full_handle_result L fetch) m c = Inr c'"
  shows "full_inv L fetch (snd c')"
proof -
  let ?s1 = "dispatch m (snd c)"
  have i1: "full_inv L fetch ?s1" using assms(1) by (rule dispatch_full_inv)
  show ?thesis
  proof (cases "futures ?s1 = []")
    case True
    with assms(2) i1 show ?thesis by (auto simp: loop_body_def Let_def)
  next
    case False
    with assms(2) obtain fs where "drain (full_handle_result L fetch) fs ?s1 = Inr (snd c')"
      by (auto simp: loop_body_def Let_def split: sum.splits)
    with i1 show ?thesis
      by (rule drain_inv [where P = "full_inv L fetch", rotated]) (rule full_step)
  qed
qed

lemma initial_full_inv:
  "normalize_url L root_url = Inr n \<Longrightarrow>
   full_inv L fetch (initial_state \<lparr>full_name = root_name, full_url = root_url,
      full_kind = S ''FOLDER'', full_children = []\<rparr> n)"
  by (simp add: full_inv_def pending_def initial_state_def ids_def own_def eid_def fstatic_def)

lemma crawl_full_inv:
  assumes "FullCatalogCrawler_crawl L fetch m sched root_name root_url = Some (Inr s)"
  shows "full_inv L fetch s \<and> queue s = [] \<and> futures s = []"
proof -
  let ?root = "\<lparr>full_name = root_name, full_url = root_url,
      full_kind = S ''FOLDER'', full_children = []\<rparr>"
  from assms obtain n where n: "normalize_url L root_url = Inr n" and m: "\<not> m \<le> 0"
    and run: "crawl_loop (full_handle_result L fetch) m (sched, initial_state ?root n)
                = Some (Inr s)"
    by (auto simp: FullCatalogCrawler_crawl_def Let_def split: sum.splits if_splits)
  have "case Inr s :: exn + FullCatalogNode crawl_state of Inl e \<Rightarrow> True
        | Inr s \<Rightarrow> full_inv L fetch s \<and> queue s = [] \<and> futures s = []"
  proof (rule crawl_loop_result [where P = "full_inv L fetch" and E = "\<lambda>e. True", OF _ _ run])
    show "full_inv L fetch (snd (sched, initial_state ?root n))"
      using initial_full_inv [OF n] by simp
  qed (auto intro: loop_body_full_inv)
  then show ?thesis by simp
qed

lemma example_full_run:
  "FullCatalogCrawler_crawl lib0 example_site_full 2 [[1, 0]] (S ''Root'') (S ''/c?id=0'')
     = Some (Inr example_full_result)"
  by code_simp

lemma own_first_occurrence:
  "p < length (nodes s) \<Longrightarrow> own (ids L s) p = first_occurrence L s p"
proof -
  assume p: "p < length (nodes s)"
  have a: "ids L s ! p \<noteq> None \<longleftrightarrow> full_kind (nodes s ! p) = S ''FOLDER''"
    using p by (simp add: ids_def eid_def fstatic_def)
  have b: "ids L s ! p \<in> set (take p (ids L s)) \<longleftrightarrow>
      (\<exists>i < p. full_kind (nodes s ! i) = S ''FOLDER''
          \<and> normalize_url L (full_url (nodes s ! i)) = normalize_url L (full_url (nodes s ! p)))"
    if f: "full_kind (nodes s ! p) = S ''FOLDER''"
  proof
    assume "ids L s ! p \<in> set (take p (ids L s))"
    then obtain i where i: "i < p" "take p (ids L s) ! i = ids L s ! p"
      using p by (auto simp: in_set_conv_nth ids_def)
    then have "ids L s ! i = ids L s ! p" by simp
    with i p f show "\<exists>i < p. full_kind (nodes s ! i) = S ''FOLDER''
          \<and> normalize_url L (full_url (nodes s ! i)) = normalize_url L (full_url (nodes s ! p))"
      by (intro exI [of _ i]) (auto simp: ids_def eid_def fstatic_def split: if_splits)
  next
    assume "\<exists>i < p. full_kind (nodes s ! i) = S ''FOLDER''
          \<and> normalize_url L (full_url (nodes s ! i)) = normalize_url L (full_url (nodes s ! p))"
    then obtain i where i: "i < p" "full_kind (nodes s ! i) = S ''FOLDER''"
      "normalize_url L (full_url (nodes s ! i)) = normalize_url L (full_url (nodes s ! p))"
      by blast
    with p f have "ids L s ! i = ids L s ! p" by (simp add: ids_def eid_def fstatic_def)
    moreover have "take p (ids L s) ! i = ids L s ! i" using i by simp
    moreover have "i < length (take p (ids L s))" using i p by (simp add: ids_def)
    ultimately show "ids L s ! p \<in> set (take p (ids L s))"
      by (metis nth_mem)
  qed
  show ?thesis
  proof (cases "full_kind (nodes s ! p) = S ''FOLDER''")
    case True
    with a b [OF True] p show ?thesis
      by (auto simp: own_def first_occurrence_def ids_def)
  next
    case False
    with a p show ?thesis by (simp add: own_def first_occurrence_def)
  qed
qed

lemma main_final:
  assumes "CatalogCrawler_crawl L fetch m sched root_name root_url = Some (Inr s)"
    and "j < length (nodes s)"
  shows "expanded L fetch s j"
proof -
  from crawl_main_inv [OF assms(1)] have inv: "main_inv L fetch s"
    and p: "pending s = []" by (simp_all add: pending_def)
  with assms(2) show ?thesis by (simp add: main_inv_def)
qed

lemma full_final:
  assumes "FullCatalogCrawler_crawl L fetch m sched root_name root_url = Some (Inr s)"
    and "j < length (nodes s)"
  shows "if first_occurrence L s j then full_expanded L fetch s j
         else full_children (nodes s ! j) = []"
proof -
  from crawl_full_inv [OF assms(1)] have inv: "full_inv L fetch s"
    and p: "pending s = []" by (simp_all add: pending_def)
  with assms(2) own_first_occurrence [OF assms(2), of L] show ?thesis
    by (auto simp: full_inv_def)
qed

lemma crawl_main_root:
  assumes "CatalogCrawler_crawl L fetch m sched root_name root_url = Some (Inr s)"
  shows "name (nodes s ! 0) = root_name \<and> url (nodes s ! 0) = root_url
     \<and> normalize_url L root_url = Inr (hd (seen s))"
proof -
  let ?root = "\<lparr>name = root_name, url = root_url, depth = 0, children = [],
                  has_file_children = False\<rparr>"
  from assms obtain n where n: "normalize_url L root_url = Inr n" and m: "\<not> m \<le> 0"
    and run: "crawl_loop (handle_result L fetch) m (sched, initial_state ?root n) = Some (Inr s)"
    by (auto simp: CatalogCrawler_crawl_def Let_def split: sum.splits if_splits)
  let ?P = "\<lambda>s. main_inv L fetch s \<and> take 1 (seen s) = [n]
                \<and> static (nodes s ! 0) = (root_name, root_url, 0)"
  have step: "?P s'" if p: "?P s" and f: "map_of (futures s) f = Some k"
    and h: "handle_result L fetch k (s\<lparr>futures := filter (\<lambda>(k, v). k \<noteq> f) (futures s)\<rparr>) = Inr s'"
    for s s' f k
  proof -
    from p have inv: "main_inv L fetch s" by simp
    note st = main_step_full [OF inv f h]
    then obtain x where x: "seen s' = seen s @ x" by blast
    have ne: "seen s \<noteq> []" using p by auto
    have "0 < length (nodes s)" using inv by (simp add: main_inv_def)
    with st have "static (nodes s' ! 0) = static (nodes s ! 0)" by blast
    moreover have "take 1 (seen s') = take 1 (seen s)" using x ne by (cases "seen s") simp_all
    moreover have "main_inv L fetch s'" using st by simp
    ultimately show ?thesis using p by simp
  qed
  have body: "?P (snd c')" if p: "?P (snd c)" and b: "loop_body (handle_result L fetch) m c = Inr c'"
    for c c'
  proof -
    let ?s1 = "dispatch m (snd c)"
    have i1: "?P ?s1" using p by (simp add: dispatch_main_inv dispatch_frame)
    show ?thesis
    proof (cases "futures ?s1 = []")
      case True
      with b i1 show ?thesis by (auto simp: loop_body_def Let_def)
    next
      case False
      with b obtain fs where "drain (handle_result L fetch) fs ?s1 = Inr (snd c')"
        by (auto simp: loop_body_def Let_def split: sum.splits)
      with i1 show ?thesis
        by (rule drain_inv [where P = ?P, rotated]) (rule step)
    qed
  qed
  have "case Inr s :: exn + CatalogNode crawl_state of Inl e \<Rightarrow> True
        | Inr s \<Rightarrow> ?P s \<and> queue s = [] \<and> futures s = []"
  proof (rule crawl_loop_result [where P = ?P and E = "\<lambda>e. True", OF _ _ run])
    show "?P (snd (sched, initial_state ?root n))"
      using initial_main_inv [OF n]
      by (simp add: static_def) (simp add: initial_state_def)
  next
    fix c c' assume "?P (snd c)" "loop_body (handle_result L fetch) m c = Inr c'"
    then show "?P (snd c')" by (rule body)
  qed simp
  then have "take 1 (seen s) = [n]" "static (nodes s ! 0) = (root_name, root_url, 0)"
    by simp_all
  with n show ?thesis by (cases "seen s") (simp_all add: static_def)
qed

lemma crawl_full_root:
  assumes "FullCatalogCrawler_crawl L fetch m sched root_name root_url = Some (Inr s)"
  shows "full_name (nodes s ! 0) = root_name \<and> full_url (nodes s ! 0) = root_url
     \<and> full_kind (nodes s ! 0) = S ''FOLDER''
     \<and> normalize_url L root_url = Inr (hd (seen s)) \<and> nodes s \<noteq> []"
proof -
  let ?root = "\<lparr>full_name = root_name, full_url = root_url,
      full_kind = S ''FOLDER'', full_children = []\<rparr>"
  from assms obtain n where n: "normalize_url L root_url = Inr n" and m: "\<not> m \<le> 0"
    and run: "crawl_loop (full_handle_result L fetch) m (sched, initial_state ?root n)
                = Some (Inr s)"
    by (auto simp: FullCatalogCrawler_crawl_def Let_def split: sum.splits if_splits)
  let ?P = "\<lambda>s. full_inv L fetch s \<and> take 1 (seen s) = [n]
                \<and> fstatic (nodes s ! 0) = (root_name, root_url, S ''FOLDER'')"
  have ne0: "nodes s \<noteq> []" if "full_inv L fetch s" for s
    using that by (auto simp: full_inv_def own_def ids_def)
  have step: "?P s'" if p: "?P s" and f: "map_of (futures s) f = Some k"
    and h: "full_handle_result L fetch k
              (s\<lparr>futures := filter (\<lambda>(k, v). k \<noteq> f) (futures s)\<rparr>) = Inr s'"
    for s s' f k
  proof -
    from p have inv: "full_inv L fetch s" by simp
    note st = full_step_full [OF inv f h]
    then obtain x where x: "seen s' = seen s @ x" by blast
    have ne: "seen s \<noteq> []" using p by auto
    have "0 < length (nodes s)" using ne0 [OF inv] by simp
    with st have "fstatic (nodes s' ! 0) = fstatic (nodes s ! 0)" by blast
    moreover have "take 1 (seen s') = take 1 (seen s)" using x ne by (cases "seen s") simp_all
    moreover have "full_inv L fetch s'" using st by simp
    ultimately show ?thesis using p by simp
  qed
  have body: "?P (snd c')" if p: "?P (snd c)"
    and b: "loop_body (full_handle_result L fetch) m c = Inr c'" for c c'
  proof -
    let ?s1 = "dispatch m (snd c)"
    have i1: "?P ?s1" using p by (simp add: dispatch_full_inv dispatch_frame)
    show ?thesis
    proof (cases "futures ?s1 = []")
      case True
      with b i1 show ?thesis by (auto simp: loop_body_def Let_def)
    next
      case False
      with b obtain fs where "drain (full_handle_result L fetch) fs ?s1 = Inr (snd c')"
        by (auto simp: loop_body_def Let_def split: sum.splits)
      with i1 show ?thesis
        by (rule drain_inv [where P = ?P, rotated]) (rule step)
    qed
  qed
  have "case Inr s :: exn + FullCatalogNode crawl_state of Inl e \<Rightarrow> True
        | Inr s \<Rightarrow> ?P s \<and> queue s = [] \<and> futures s = []"
  proof (rule crawl_loop_result [where P = ?P and E = "\<lambda>e. True", OF _ _ run])
    show "?P (snd (sched, initial_state ?root n))"
      using initial_full_inv [OF n]
      by (simp add: fstatic_def) (simp add: initial_state_def)
  next
    fix c c' assume "?P (snd c)" "loop_body (full_handle_result L fetch) m c = Inr c'"
    then show "?P (snd c')" by (rule body)
  qed simp
  then have "take 1 (seen s) = [n]" "fstatic (nodes s ! 0) = (root_name, root_url, S ''FOLDER'')"
    "full_inv L fetch s"
    by simp_all
  with n ne0 [of s] show ?thesis by (cases "seen s") (simp_all add: fstatic_def)
qed

lemma main_children:
  assumes run: "CatalogCrawler_crawl L fetch m sched root_name root_url = Some (Inr s)"
    and p: "p < length (nodes s)" and h: "fetch (url (nodes s ! p)) = Inr es"
  shows "distinct (children (nodes s ! p))
     \<and> (\<exists>a. p < a \<and> a \<le> length (nodes s)
          \<and> map (\<lambda>c. (name (nodes s ! c), url (nodes s ! c))) (children (nodes s ! p))
             = map (\<lambda>e. (entry_name e, entry_url e))
                 (fresh_entries L (take a (seen s)) (filter (\<lambda>e. entry_kind e = S ''FOLDER'') es)))"
proof -
  let ?folder = "filter (\<lambda>e. entry_kind e = S ''FOLDER'') es"
  from main_final [OF run p] h obtain a where a: "p < a" "a \<le> length (nodes s)"
    "attached s p a (fresh_entries L (take a (seen s)) ?folder)"
    by (auto simp: expanded_def)
  let ?new = "fresh_entries L (take a (seen s)) ?folder"
  from a(3) have c: "children (nodes s ! p) = [a ..< a + length ?new]"
    and st: "\<forall>k < length ?new. static (nodes s ! (a + k))
            = (entry_name (?new ! k), entry_url (?new ! k), depth (nodes s ! p) + 1)"
    by (simp_all add: attached_def)
  have "map (\<lambda>c. (name (nodes s ! c), url (nodes s ! c))) (children (nodes s ! p))
          = map (\<lambda>e. (entry_name e, entry_url e)) ?new"
    using c st by (intro nth_equalityI) (simp_all add: static_def)
  with a(1,2) c show ?thesis by auto
qed

lemma full_children_page:
  assumes run: "FullCatalogCrawler_crawl L fetch m sched root_name root_url = Some (Inr t)"
    and p: "p < length (nodes t)" and o: "first_occurrence L t p"
    and h: "fetch (full_url (nodes t ! p)) = Inr es"
  shows "distinct (full_children (nodes t ! p))
     \<and> map (\<lambda>c. (full_name (nodes t ! c), full_url (nodes t ! c), full_kind (nodes t ! c)))
           (full_children (nodes t ! p)) = es"
proof -
  from full_final [OF run p] o have "full_expanded L fetch t p" by simp
  with h obtain a where a: "full_children (nodes t ! p) = [a ..< a + length es]"
    "\<forall>k < length es. fstatic (nodes t ! (a + k)) = es ! k"
    by (auto simp: full_expanded_def)
  have "map (\<lambda>c. (full_name (nodes t ! c), full_url (nodes t ! c), full_kind (nodes t ! c)))
          (full_children (nodes t ! p)) = es"
    using a by (intro nth_equalityI) (simp_all add: fstatic_def)
  with a(1) show ?thesis by simp
qed

text \<open>
  Claim C1. After a completed crawl of either crawler, of two different FOLDER nodes
  whose addresses have the same normalized identity at most one has children. The
  identities in \<open>seen\<close> are pairwise different, so none was added twice; the first is
  the root's, and they are the identities of the nodes that were put in the queue:
  of all nodes for \<open>CatalogCrawler\<close>, of the FOLDER nodes for \<open>FullCatalogCrawler\<close>.
  (All nodes of \<open>CatalogCrawler\<close> are FOLDER nodes.)
\<close>

theorem dedup_invariant:
  "(CatalogCrawler_crawl L fetch max_workers sched root_name root_url = Some (Inr s) \<longrightarrow>
      distinct (seen s)
      \<and> normalize_url L root_url = Inr (hd (seen s))
      \<and> map (\<lambda>n. normalize_url L (url n)) (nodes s) = map Inr (seen s)
      \<and> (\<forall>i < length (nodes s). \<forall>j < length (nodes s).
            i \<noteq> j \<and> normalize_url L (url (nodes s ! i)) = normalize_url L (url (nodes s ! j))
            \<longrightarrow> children (nodes s ! i) = [] \<or> children (nodes s ! j) = []))
   \<and> (FullCatalogCrawler_crawl L ffetch max_workers sched root_name root_url = Some (Inr t) \<longrightarrow>
      distinct (seen t)
      \<and> normalize_url L root_url = Inr (hd (seen t))
      \<and> set (seen t) = {n. \<exists>i < length (nodes t). full_kind (nodes t ! i) = S ''FOLDER''
                             \<and> normalize_url L (full_url (nodes t ! i)) = Inr n}
      \<and> (\<forall>i < length (nodes t). \<forall>j < length (nodes t).
            i \<noteq> j \<and> full_kind (nodes t ! i) = S ''FOLDER'' \<and> full_kind (nodes t ! j) = S ''FOLDER''
            \<and> normalize_url L (full_url (nodes t ! i)) = normalize_url L (full_url (nodes t ! j))
            \<longrightarrow> full_children (nodes t ! i) = [] \<or> full_children (nodes t ! j) = []))"
proof (intro conjI impI)
  assume run: "CatalogCrawler_crawl L fetch max_workers sched root_name root_url = Some (Inr s)"
  from crawl_main_inv [OF run] have inv: "main_inv L fetch s" by simp
  show d: "distinct (seen s)" using inv by (simp add: main_inv_def)
  show "normalize_url L root_url = Inr (hd (seen s))" using crawl_main_root [OF run] by simp
  show m: "map (\<lambda>n. normalize_url L (url n)) (nodes s) = map Inr (seen s)"
    using inv by (simp add: main_inv_def)
  have "distinct (map (\<lambda>n. normalize_url L (url n)) (nodes s))"
    using d by (simp add: m distinct_map)
  then have "i = j" if "i < length (nodes s)" "j < length (nodes s)"
    "normalize_url L (url (nodes s ! i)) = normalize_url L (url (nodes s ! j))" for i j
    using that by (auto simp: distinct_conv_nth)
  then show "\<forall>i < length (nodes s). \<forall>j < length (nodes s).
            i \<noteq> j \<and> normalize_url L (url (nodes s ! i)) = normalize_url L (url (nodes s ! j))
            \<longrightarrow> children (nodes s ! i) = [] \<or> children (nodes s ! j) = []"
    by blast
next
  assume run: "FullCatalogCrawler_crawl L ffetch max_workers sched root_name root_url = Some (Inr t)"
  from crawl_full_inv [OF run] have inv: "full_inv L ffetch t" by simp
  show "distinct (seen t)" using inv by (simp add: full_inv_def)
  show "normalize_url L root_url = Inr (hd (seen t))" using crawl_full_root [OF run] by simp
  from inv have eq: "(\<lambda>n. Some (Inr n)) ` set (seen t) = set (ids L t) - {None}"
    by (simp add: full_inv_def)
  show "set (seen t) = {n. \<exists>i < length (nodes t). full_kind (nodes t ! i) = S ''FOLDER''
                             \<and> normalize_url L (full_url (nodes t ! i)) = Inr n}"
  proof (intro set_eqI iffI)
    fix n assume "n \<in> set (seen t)"
    then have "Some (Inr n) \<in> set (ids L t)" using eq by blast
    then obtain i where "i < length (nodes t)" "ids L t ! i = Some (Inr n)"
      by (auto simp: in_set_conv_nth ids_def)
    then show "n \<in> {n. \<exists>i < length (nodes t). full_kind (nodes t ! i) = S ''FOLDER''
                             \<and> normalize_url L (full_url (nodes t ! i)) = Inr n}"
      by (auto simp: ids_def eid_def fstatic_def split: if_splits)
  next
    fix n assume "n \<in> {n. \<exists>i < length (nodes t). full_kind (nodes t ! i) = S ''FOLDER''
                             \<and> normalize_url L (full_url (nodes t ! i)) = Inr n}"
    then obtain i where i: "i < length (nodes t)" "full_kind (nodes t ! i) = S ''FOLDER''"
      "normalize_url L (full_url (nodes t ! i)) = Inr n" by blast
    then have "ids L t ! i = Some (Inr n)" by (simp add: ids_def eid_def fstatic_def)
    moreover have "i < length (ids L t)" using i by (simp add: ids_def)
    ultimately have "Some (Inr n) \<in> set (ids L t) - {None}" by (metis DiffI nth_mem option.distinct(1) singletonD)
    then have "Some (Inr n) \<in> (\<lambda>n. Some (Inr n :: exn + pystr)) ` set (seen t)"
      unfolding eq .
    then show "n \<in> set (seen t)" by auto
  qed
  have later: "full_children (nodes t ! j) = []"
    if "i < j" "j < length (nodes t)" "full_kind (nodes t ! i) = S ''FOLDER''"
      "normalize_url L (full_url (nodes t ! i)) = normalize_url L (full_url (nodes t ! j))"
    for i j
  proof -
    from that have "\<not> first_occurrence L t j" by (auto simp: first_occurrence_def)
    with full_final [OF run that(2)] show ?thesis by simp
  qed
  show "\<forall>i < length (nodes t). \<forall>j < length (nodes t).
            i \<noteq> j \<and> full_kind (nodes t ! i) = S ''FOLDER'' \<and> full_kind (nodes t ! j) = S ''FOLDER''
            \<and> normalize_url L (full_url (nodes t ! i)) = normalize_url L (full_url (nodes t ! j))
            \<longrightarrow> full_children (nodes t ! i) = [] \<or> full_children (nodes t ! j) = []"
  proof (intro allI impI)
    fix i j assume i: "i < length (nodes t)" and j: "j < length (nodes t)"
      and h: "i \<noteq> j \<and> full_kind (nodes t ! i) = S ''FOLDER'' \<and> full_kind (nodes t ! j) = S ''FOLDER''
            \<and> normalize_url L (full_url (nodes t ! i)) = normalize_url L (full_url (nodes t ! j))"
    show "full_children (nodes t ! i) = [] \<or> full_children (nodes t ! j) = []"
    proof (cases "i < j")
      case True
      with later [OF True j] h show ?thesis by simp
    next
      case False
      with h have "j < i" by simp
      from later [OF this i] h show ?thesis by simp
    qed
  qed
qed

theorem dedup_invariant_witness:
  "FullCatalogCrawler_crawl lib0 example_site_full 2 [[1, 0]] (S ''Root'') (S ''/c?id=0'')
     = Some (Inr example_full_result)
   \<and> full_kind (nodes example_full_result ! 0) = S ''FOLDER''
   \<and> full_kind (nodes example_full_result ! 4) = S ''FOLDER''
   \<and> normalize_url lib0 (full_url (nodes example_full_result ! 0))
        = normalize_url lib0 (full_url (nodes example_full_result ! 4))
   \<and> full_children (nodes example_full_result ! 0) = [1, 2, 3]
   \<and> full_children (nodes example_full_result ! 4) = []
   \<and> distinct (seen example_full_result)
   \<and> normalize_url lib0 (S ''/c?id=0'') = Inr (hd (seen example_full_result))"
proof -
  note t = dedup_invariant [of lib0 example_site 2 "[[1, 0]]" "S ''Root''" "S ''/c?id=0''"
      example_result example_site_full example_full_result, THEN conjunct2, rule_format,
      OF example_full_run]
  have i: "0 < length (nodes example_full_result)" "4 < length (nodes example_full_result)"
    by (simp_all add: example_full_result_def)
  have k: "full_kind (nodes example_full_result ! 0) = S ''FOLDER''"
    "full_kind (nodes example_full_result ! 4) = S ''FOLDER''"
    by (simp_all add: example_full_result_def)
  have e: "normalize_url lib0 (full_url (nodes example_full_result ! 0))
        = normalize_url lib0 (full_url (nodes example_full_result ! 4))"
    by code_simp
  have c0: "full_children (nodes example_full_result ! 0) = [1, 2, 3]"
    by (simp add: example_full_result_def)
  from t have p: "\<forall>i < length (nodes example_full_result). \<forall>j < length (nodes example_full_result).
      i \<noteq> j \<and> full_kind (nodes example_full_result ! i) = S ''FOLDER''
      \<and> full_kind (nodes example_full_result ! j) = S ''FOLDER''
      \<and> normalize_url lib0 (full_url (nodes example_full_result ! i))
           = normalize_url lib0 (full_url (nodes example_full_result ! j))
      \<longrightarrow> full_children (nodes example_full_result ! i) = []
          \<or> full_children (nodes example_full_result ! j) = []"
    by blast
  from p [rule_format, OF i(1) i(2)] k e c0
  have "full_children (nodes example_full_result ! 4) = []" by simp
  with t k e c0 example_full_run show ?thesis by blast
qed




text \<open>
  Claim C4, as amended. \<open>FullCatalogCrawler\<close>: an entry of kind FOLDER whose normalized
  identity is already in \<open>seen\<close> gets a child node, appended to the children of its
  parent, and neither \<open>seen\<close> nor the queue changes (first part: the step of the loop
  over the entries). In the returned tree every entry of a fetched page is a child of
  the page's node, and a FOLDER child whose identity an earlier FOLDER node has is
  without children (second part). \<open>CatalogCrawler\<close>: such an entry is skipped, the state
  does not change (third part), and no two nodes of the returned tree have the same
  identity (fourth part).
\<close>

theorem seen_entry_is_dead_end:
  "(ekind = S ''FOLDER'' \<and> normalize_url L eurl = Inr normalized \<and> normalized \<in> set (seen t0) \<longrightarrow>
      full_add_children L node ((ename, eurl, ekind) # rest) t0
        = full_add_children L node rest
            (t0\<lparr>nodes := (nodes t0)[node := (nodes t0 ! node)
                     \<lparr>full_children := full_children (nodes t0 ! node) @ [length (nodes t0)]\<rparr>]
                   @ [\<lparr>full_name = ename, full_url = eurl, full_kind = ekind,
                        full_children = []\<rparr>]\<rparr>))
   \<and> (FullCatalogCrawler_crawl L ffetch max_workers sched root_name root_url = Some (Inr t) \<longrightarrow>
        (\<forall>p < length (nodes t). \<forall>es. first_occurrence L t p
            \<and> ffetch (full_url (nodes t ! p)) = Inr es \<longrightarrow>
            length (full_children (nodes t ! p)) = length es
            \<and> (\<forall>k < length es.
                  full_children (nodes t ! p) ! k < length (nodes t)
                  \<and> (full_name (nodes t ! (full_children (nodes t ! p) ! k)),
                      full_url (nodes t ! (full_children (nodes t ! p) ! k)),
                      full_kind (nodes t ! (full_children (nodes t ! p) ! k))) = es ! k))
        \<and> (\<forall>c < length (nodes t).
              full_kind (nodes t ! c) = S ''FOLDER''
              \<and> (\<exists>i < c. full_kind (nodes t ! i) = S ''FOLDER''
                    \<and> normalize_url L (full_url (nodes t ! i))
                        = normalize_url L (full_url (nodes t ! c)))
              \<longrightarrow> full_children (nodes t ! c) = []))
   \<and> (normalize_url L (entry_url entry) = Inr normalized' \<and> normalized' \<in> set (seen s0) \<longrightarrow>
        add_children L node' (entry # rest') s0 = add_children L node' rest' s0)
   \<and> (CatalogCrawler_crawl L fetch max_workers sched root_name root_url = Some (Inr s) \<longrightarrow>
        (\<forall>i < length (nodes s). \<forall>j < length (nodes s). i \<noteq> j \<longrightarrow>
           normalize_url L (url (nodes s ! i)) \<noteq> normalize_url L (url (nodes s ! j))))"
proof (intro conjI impI)
  assume "ekind = S ''FOLDER'' \<and> normalize_url L eurl = Inr normalized \<and> normalized \<in> set (seen t0)"
  then show "full_add_children L node ((ename, eurl, ekind) # rest) t0
        = full_add_children L node rest
            (t0\<lparr>nodes := (nodes t0)[node := (nodes t0 ! node)
                     \<lparr>full_children := full_children (nodes t0 ! node) @ [length (nodes t0)]\<rparr>]
                   @ [\<lparr>full_name = ename, full_url = eurl, full_kind = ekind,
                        full_children = []\<rparr>]\<rparr>)"
    by (simp add: Let_def)
next
  assume run: "FullCatalogCrawler_crawl L ffetch max_workers sched root_name root_url = Some (Inr t)"
  show "\<forall>p < length (nodes t). \<forall>es. first_occurrence L t p
            \<and> ffetch (full_url (nodes t ! p)) = Inr es \<longrightarrow>
            length (full_children (nodes t ! p)) = length es
            \<and> (\<forall>k < length es.
                  full_children (nodes t ! p) ! k < length (nodes t)
                  \<and> (full_name (nodes t ! (full_children (nodes t ! p) ! k)),
                      full_url (nodes t ! (full_children (nodes t ! p) ! k)),
                      full_kind (nodes t ! (full_children (nodes t ! p) ! k))) = es ! k)"
  proof (intro allI impI)
    fix p es assume p: "p < length (nodes t)"
      and h: "first_occurrence L t p \<and> ffetch (full_url (nodes t ! p)) = Inr es"
    from full_final [OF run p] h have "full_expanded L ffetch t p" by simp
    with h obtain a where a: "full_children (nodes t ! p) = [a ..< a + length es]"
      "a + length es \<le> length (nodes t)"
      "\<forall>k < length es. fstatic (nodes t ! (a + k)) = es ! k"
      by (auto simp: full_expanded_def)
    have "full_children (nodes t ! p) ! k < length (nodes t)
          \<and> (full_name (nodes t ! (full_children (nodes t ! p) ! k)),
              full_url (nodes t ! (full_children (nodes t ! p) ! k)),
              full_kind (nodes t ! (full_children (nodes t ! p) ! k))) = es ! k"
      if "k < length es" for k
      using that a by (simp add: fstatic_def)
    with a(1) show "length (full_children (nodes t ! p)) = length es
            \<and> (\<forall>k < length es.
                  full_children (nodes t ! p) ! k < length (nodes t)
                  \<and> (full_name (nodes t ! (full_children (nodes t ! p) ! k)),
                      full_url (nodes t ! (full_children (nodes t ! p) ! k)),
                      full_kind (nodes t ! (full_children (nodes t ! p) ! k))) = es ! k)"
      by simp
  qed
  show "\<forall>c < length (nodes t).
              full_kind (nodes t ! c) = S ''FOLDER''
              \<and> (\<exists>i < c. full_kind (nodes t ! i) = S ''FOLDER''
                    \<and> normalize_url L (full_url (nodes t ! i))
                        = normalize_url L (full_url (nodes t ! c)))
              \<longrightarrow> full_children (nodes t ! c) = []"
  proof (intro allI impI)
    fix c assume c: "c < length (nodes t)"
      and h: "full_kind (nodes t ! c) = S ''FOLDER''
              \<and> (\<exists>i < c. full_kind (nodes t ! i) = S ''FOLDER''
                    \<and> normalize_url L (full_url (nodes t ! i))
                        = normalize_url L (full_url (nodes t ! c)))"
    then have "\<not> first_occurrence L t c" by (auto simp: first_occurrence_def)
    with full_final [OF run c] show "full_children (nodes t ! c) = []" by simp
  qed
next
  assume "normalize_url L (entry_url entry) = Inr normalized' \<and> normalized' \<in> set (seen s0)"
  then show "add_children L node' (entry # rest') s0 = add_children L node' rest' s0"
    by simp
next
  assume run: "CatalogCrawler_crawl L fetch max_workers sched root_name root_url = Some (Inr s)"
  from crawl_main_inv [OF run] have inv: "main_inv L fetch s" by simp
  then have "distinct (map (\<lambda>n. normalize_url L (url n)) (nodes s))"
    by (simp add: main_inv_def distinct_map)
  then show "\<forall>i < length (nodes s). \<forall>j < length (nodes s). i \<noteq> j \<longrightarrow>
           normalize_url L (url (nodes s ! i)) \<noteq> normalize_url L (url (nodes s ! j))"
    by (auto simp: distinct_conv_nth)
qed

theorem seen_entry_is_dead_end_witness:
  "FullCatalogCrawler_crawl lib0 example_site_full 2 [[1, 0]] (S ''Root'') (S ''/c?id=0'')
     = Some (Inr example_full_result)
   \<and> first_occurrence lib0 example_full_result 1
   \<and> example_site_full (full_url (nodes example_full_result ! 1))
        = Inr [(S ''C'', S ''/c?id=0&limit=50'', S ''FOLDER''), (S ''D'', S ''/p?id=8'', S ''FILE'')]
   \<and> full_children (nodes example_full_result ! 1) ! 0 = 4
   \<and> full_name (nodes example_full_result ! 4) = S ''C''
   \<and> full_kind (nodes example_full_result ! 4) = S ''FOLDER''
   \<and> full_kind (nodes example_full_result ! 0) = S ''FOLDER''
   \<and> normalize_url lib0 (full_url (nodes example_full_result ! 0))
        = normalize_url lib0 (full_url (nodes example_full_result ! 4))
   \<and> full_children (nodes example_full_result ! 4) = []"
proof -
  note t = seen_entry_is_dead_end [of "S ''FOLDER''" lib0 "S ''/c?id=0''" "S ''/c?id=0''"
      example_full_result 0 "S ''Root''" "[]" example_site_full 2 "[[1, 0]]" "S ''Root''"
      "S ''/c?id=0''" example_full_result
      "\<lparr>entry_name = S ''A'', entry_url = S ''/c?id=1'', entry_kind = S ''FOLDER''\<rparr>"
      "S ''/c?id=1''" example_result 0 "[]" example_site example_result,
      THEN conjunct2, THEN conjunct1, rule_format, OF example_full_run]
  have c: "4 < length (nodes example_full_result)" by (simp add: example_full_result_def)
  have k: "full_kind (nodes example_full_result ! 4) = S ''FOLDER''"
    "full_kind (nodes example_full_result ! 0) = S ''FOLDER''"
    "full_children (nodes example_full_result ! 1) ! 0 = 4"
    "full_name (nodes example_full_result ! 4) = S ''C''"
    by (simp_all add: example_full_result_def)
  have e: "normalize_url lib0 (full_url (nodes example_full_result ! 0))
        = normalize_url lib0 (full_url (nodes example_full_result ! 4))"
    by code_simp
  have f: "first_occurrence lib0 example_full_result 1"
    unfolding first_occurrence_def by code_simp
  have pg: "example_site_full (full_url (nodes example_full_result ! 1))
        = Inr [(S ''C'', S ''/c?id=0&limit=50'', S ''FOLDER''), (S ''D'', S ''/p?id=8'', S ''FILE'')]"
    by code_simp
  have ex: "\<exists>i < 4. full_kind (nodes example_full_result ! i) = S ''FOLDER''
      \<and> normalize_url lib0 (full_url (nodes example_full_result ! i))
           = normalize_url lib0 (full_url (nodes example_full_result ! 4))"
    using k(2) e by (intro exI [of _ 0]) simp
  from t have "\<forall>c < length (nodes example_full_result).
              full_kind (nodes example_full_result ! c) = S ''FOLDER''
              \<and> (\<exists>i < c. full_kind (nodes example_full_result ! i) = S ''FOLDER''
                    \<and> normalize_url lib0 (full_url (nodes example_full_result ! i))
                        = normalize_url lib0 (full_url (nodes example_full_result ! c)))
              \<longrightarrow> full_children (nodes example_full_result ! c) = []"
    by blast
  from this [rule_format, OF c conjI, OF k(1) ex] k e f pg example_full_run
  show ?thesis by blast
qed

text \<open>
  The claim C4 as stated fails for \<open>CatalogCrawler\<close>: the page of node A of the example
  has the FOLDER entry C, whose identity is the root's and therefore in \<open>seen\<close>; no node is
  attached for it, A has no children.
\<close>

theorem seen_entry_is_dead_end_counterexample:
  "CatalogCrawler_crawl lib0 example_site 2 [[1, 0]] (S ''Root'') (S ''/c?id=0'')
     = Some (Inr example_result)
   \<and> example_site (url (nodes example_result ! 1))
        = Inr [\<lparr>entry_name = S ''C'', entry_url = S ''/c?id=0&limit=50'', entry_kind = S ''FOLDER''\<rparr>,
               \<lparr>entry_name = S ''D'', entry_url = S ''/p?id=8'', entry_kind = S ''FILE''\<rparr>]
   \<and> normalize_url lib0 (S ''/c?id=0&limit=50'') = normalize_url lib0 (url (nodes example_result ! 0))
   \<and> children (nodes example_result ! 1) = []"
proof -
  have "example_site (url (nodes example_result ! 1))
        = Inr [\<lparr>entry_name = S ''C'', entry_url = S ''/c?id=0&limit=50'', entry_kind = S ''FOLDER''\<rparr>,
               \<lparr>entry_name = S ''D'', entry_url = S ''/p?id=8'', entry_kind = S ''FILE''\<rparr>]"
    by code_simp
  moreover have "normalize_url lib0 (S ''/c?id=0&limit=50'')
      = normalize_url lib0 (url (nodes example_result ! 0))"
    by code_simp
  moreover have "children (nodes example_result ! 1) = []"
    by (simp add: example_result_def)
  ultimately show ?thesis using example_run by blast
qed

lemma drain_error:
  assumes step: "\<And>f n s s'. P s \<Longrightarrow> map_of (futures s) f = Some n
     \<Longrightarrow> handle n (s\<lparr>futures := filter (\<lambda>(k, v). k \<noteq> f) (futures s)\<rparr>) = Inr s'
     \<Longrightarrow> P s' \<and> futures s' = filter (\<lambda>(k, v). k \<noteq> f) (futures s)"
    and herr: "\<And>f n s e. P s \<Longrightarrow> map_of (futures s) f = Some n
     \<Longrightarrow> handle n (s\<lparr>futures := filter (\<lambda>(k, v). k \<noteq> f) (futures s)\<rparr>) = Inl e \<Longrightarrow> E e"
  shows "P s \<Longrightarrow> distinct fs \<Longrightarrow> set fs \<subseteq> fst ` set (futures s)
     \<Longrightarrow> drain handle fs s = Inl e \<Longrightarrow> E e"
proof (induction fs arbitrary: s)
  case Nil
  then show ?case by simp
next
  case (Cons f fs)
  from Cons.prems(3) have "f \<in> fst ` set (futures s)" by simp
  then obtain n where n: "map_of (futures s) f = Some n"
    by (cases "map_of (futures s) f") (auto simp: map_of_eq_None_iff)
  let ?s0 = "s\<lparr>futures := filter (\<lambda>(k, v). k \<noteq> f) (futures s)\<rparr>"
  show ?case
  proof (cases "handle n ?s0")
    case (Inl e')
    with Cons.prems(4) n have "e = e'" by simp
    with herr [OF Cons.prems(1) n Inl] show ?thesis by simp
  next
    case (Inr s1)
    from step [OF Cons.prems(1) n Inr] have p1: "P s1"
      and f1: "futures s1 = filter (\<lambda>(k, v). k \<noteq> f) (futures s)" by simp_all
    have sub: "set fs \<subseteq> fst ` set (futures s1)"
    proof
      fix g assume g: "g \<in> set fs"
      with Cons.prems(2) have "g \<noteq> f" by auto
      moreover from g Cons.prems(3) obtain v where "(g, v) \<in> set (futures s)" by auto
      ultimately show "g \<in> fst ` set (futures s1)" by (force simp: f1)
    qed
    from Cons.prems(4) n Inr have "drain handle fs s1 = Inl e" by simp
    from Cons.IH [OF p1 _ sub this] Cons.prems(2) show ?thesis by simp
  qed
qed

lemma loop_body_error:
  assumes step: "\<And>f n s s'. P s \<Longrightarrow> map_of (futures s) f = Some n
     \<Longrightarrow> handle n (s\<lparr>futures := filter (\<lambda>(k, v). k \<noteq> f) (futures s)\<rparr>) = Inr s'
     \<Longrightarrow> P s' \<and> futures s' = filter (\<lambda>(k, v). k \<noteq> f) (futures s)"
    and herr: "\<And>f n s e. P s \<Longrightarrow> map_of (futures s) f = Some n
     \<Longrightarrow> handle n (s\<lparr>futures := filter (\<lambda>(k, v). k \<noteq> f) (futures s)\<rparr>) = Inl e \<Longrightarrow> E e"
    and disp: "\<And>s. P s \<Longrightarrow> P (dispatch m s)"
    and p: "P (snd c)" and b: "loop_body handle m c = Inl e"
  shows "E e"
proof -
  let ?s1 = "dispatch m (snd c)"
  let ?keys = "map fst (futures ?s1)"
  let ?done = "wait_first_completed ?keys (case fst c of [] \<Rightarrow> [] | choice # x \<Rightarrow> choice)"
  from b have ne: "futures ?s1 \<noteq> []" and d: "drain handle ?done ?s1 = Inl e"
    by (auto simp: loop_body_def Let_def split: if_splits sum.splits)
  from ne have "?keys \<noteq> []" by simp
  from wait_first_completed_ok [OF this] have dd: "distinct ?done"
    and sub: "set ?done \<subseteq> fst ` set (futures ?s1)"
    by auto
  show ?thesis
  proof (rule drain_error [where P = P and E = E and handle = handle and fs = ?done
        and s = ?s1 and e = e])
    fix f n s s'
    assume "P s" "map_of (futures s) f = Some n"
      "handle n (s\<lparr>futures := filter (\<lambda>(k, v). k \<noteq> f) (futures s)\<rparr>) = Inr s'"
    then show "P s' \<and> futures s' = filter (\<lambda>(k, v). k \<noteq> f) (futures s)" by (rule step)
  next
    fix f n s e
    assume "P s" "map_of (futures s) f = Some n"
      "handle n (s\<lparr>futures := filter (\<lambda>(k, v). k \<noteq> f) (futures s)\<rparr>) = Inl e"
    then show "E e" by (rule herr)
  next
    show "P ?s1" using p by (rule disp)
  qed (rule dd sub d)+
qed

lemma add_children_error:
  "add_children L node es s = Inl e \<Longrightarrow> \<exists>x \<in> set es. normalize_url L (entry_url x) = Inl e"
proof (induction es arbitrary: s)
  case Nil
  then show ?case by simp
next
  case (Cons x xs)
  show ?case
  proof (cases "normalize_url L (entry_url x)")
    case (Inl e')
    with Cons.prems show ?thesis by simp
  next
    case (Inr n)
    with Cons.prems obtain s1 where "add_children L node xs s1 = Inl e"
      by (auto simp: Let_def split: if_splits)
    from Cons.IH [OF this] show ?thesis by auto
  qed
qed

lemma full_add_children_error:
  "full_add_children L node es s = Inl e
   \<Longrightarrow> \<exists>ename eurl. (ename, eurl, S ''FOLDER'') \<in> set es \<and> normalize_url L eurl = Inl e"
proof (induction es arbitrary: s)
  case Nil
  then show ?case by simp
next
  case (Cons x xs)
  obtain ename eurl ekind where x: "x = (ename, eurl, ekind)" by (cases x)
  show ?case
  proof (cases "ekind = S ''FOLDER'' \<and> normalize_url L eurl = Inl e")
    case True
    with x show ?thesis by auto
  next
    case False
    with Cons.prems x obtain s1 where "full_add_children L node xs s1 = Inl e"
      by (cases "normalize_url L eurl") (auto simp: Let_def split: if_splits)
    from Cons.IH [OF this] show ?thesis by auto
  qed
qed

lemma add_children_futures:
  "add_children L node es s = Inr s' \<Longrightarrow> futures s' = futures s"
proof (induction es arbitrary: s)
  case Nil
  then show ?case by simp
next
  case (Cons x xs)
  show ?case
  proof (cases "normalize_url L (entry_url x)")
    case (Inl e)
    with Cons.prems show ?thesis by simp
  next
    case (Inr n)
    show ?thesis
    proof (cases "n \<in> set (seen s)")
      case True
      with Inr Cons show ?thesis by simp
    next
      case False
      with Inr Cons.prems have "\<exists>s1. add_children L node xs s1 = Inr s' \<and> futures s1 = futures s"
        by (auto simp: Let_def)
      with Cons.IH show ?thesis by auto
    qed
  qed
qed

lemma handle_result_futures:
  "handle_result L fetch node s = Inr s' \<Longrightarrow> futures s' = futures s"
  by (cases "fetch (url (nodes s ! node))")
    (auto simp: handle_result_def Let_def dest: add_children_futures)

lemma full_add_children_futures:
  "full_add_children L node es s = Inr s' \<Longrightarrow> futures s' = futures s"
proof (induction es arbitrary: s)
  case Nil
  then show ?case by simp
next
  case (Cons x xs)
  obtain ename eurl ekind where x: "x = (ename, eurl, ekind)" by (cases x)
  from Cons.prems x have "\<exists>s1. full_add_children L node xs s1 = Inr s' \<and> futures s1 = futures s"
    by (cases "normalize_url L eurl") (auto simp: Let_def split: if_splits)
  with Cons.IH show ?case by auto
qed

lemma full_handle_result_futures:
  "full_handle_result L fetch node s = Inr s' \<Longrightarrow> futures s' = futures s"
  by (cases "fetch (full_url (nodes s ! node))")
    (auto simp: full_handle_result_def dest: full_add_children_futures)

lemma drain_futures_le:
  assumes hf: "\<And>n s s'. handle n s = Inr s' \<Longrightarrow> futures s' = futures s"
  shows "drain handle fs s = Inr s' \<Longrightarrow> length (futures s') \<le> length (futures s)"
proof (induction fs arbitrary: s)
  case Nil
  then show ?case by simp
next
  case (Cons f fs)
  from Cons.prems obtain n s1 where
    h: "handle n (s\<lparr>futures := filter (\<lambda>(k, v). k \<noteq> f) (futures s)\<rparr>) = Inr s1"
    and r: "drain handle fs s1 = Inr s'"
    by (auto split: option.splits sum.splits)
  from hf [OF h] have "length (futures s1) \<le> length (futures s)" by simp
  with Cons.IH [OF r] show ?case by simp
qed

lemma loop_visits_bound:
  assumes hf: "\<And>n s s'. handle n s = Inr s' \<Longrightarrow> futures s' = futures s"
    and init: "int (length (futures (snd c0))) \<le> m"
  shows "loop_visits handle m c0 c \<Longrightarrow> int (length (futures (snd c))) \<le> m"
proof (induction rule: loop_visits.induct)
  case visits_start
  then show ?case by (rule init)
next
  case (visits_turn c c')
  let ?s1 = "dispatch m (snd c)"
  have b: "int (length (futures ?s1)) \<le> m" using visits_turn.IH by (rule dispatch_bound)
  show ?case
  proof (cases "futures ?s1 = []")
    case True
    with visits_turn.hyps(3) b show ?thesis by (auto simp: loop_body_def Let_def)
  next
    case False
    with visits_turn.hyps(3) obtain fs where "drain handle fs ?s1 = Inr (snd c')"
      by (auto simp: loop_body_def Let_def split: sum.splits)
    then have "length (futures (snd c')) \<le> length (futures ?s1)"
      by (rule drain_futures_le [where handle = handle, rotated]) (rule hf)
    with b show ?thesis by simp
  qed
qed

lemma crawl_loop_visits:
  assumes run: "crawl_loop handle m c0 = Some (Inr s)"
  shows "\<exists>sch. loop_visits handle m c0 (sch, s)"
proof -
  let ?Q = "\<lambda>c (y :: exn + _). loop_visits handle m c0 c \<longrightarrow>
     (case y of Inl e \<Rightarrow> True | Inr s \<Rightarrow> \<exists>sch. loop_visits handle m c0 (sch, s))"
  have "handle = handle \<longrightarrow> m = m \<longrightarrow> ?Q c0 (Inr s)"
  proof (rule crawl_loop.raw_induct
      [where P = "\<lambda>h k c y. h = handle \<longrightarrow> k = m \<longrightarrow> ?Q c y", OF _ run])
    fix cl h k c y
    assume IH: "\<And>h k c y. cl h k c = Some y \<Longrightarrow> h = handle \<longrightarrow> k = m \<longrightarrow> ?Q c y"
      and eq: "(if finished c then Some (Inr (snd c))
         else case loop_body h k c of Inl e \<Rightarrow> Some (Inl e) | Inr c' \<Rightarrow> cl h k c') = Some y"
    show "h = handle \<longrightarrow> k = m \<longrightarrow> ?Q c y"
    proof (intro impI)
      assume h: "h = handle" and k: "k = m" and v: "loop_visits handle m c0 c"
      show "case y of Inl e \<Rightarrow> True | Inr s \<Rightarrow> \<exists>sch. loop_visits handle m c0 (sch, s)"
      proof (cases "finished c")
        case True
        with eq have "y = Inr (snd c)" by simp
        with v show ?thesis by (cases c) auto
      next
        case False
        show ?thesis
        proof (cases "loop_body handle m c")
          case (Inl e)
          with eq False h k show ?thesis by auto
        next
          case (Inr c')
          with eq False h k have "cl handle m c' = Some y" by simp
          moreover have "loop_visits handle m c0 c'" using v False Inr by (rule visits_turn)
          ultimately show ?thesis using IH by blast
        qed
      qed
    qed
  qed
  then show ?thesis by (simp add: visits_start)
qed

text \<open>
  Claim C2. With \<open>max_workers \<ge> 1\<close>, in every state in which the loop of either crawler
  tests its condition, and after the dispatch phase that follows, the futures dictionary
  holds at most \<open>max_workers\<close> futures. The dispatch phase adds futures one at a time and
  the drain phase only removes them, so the bound holds at every step in between. The
  loop starts from \<open>initial_state root normalized\<close>, as in \<open>CatalogCrawler_crawl\<close> and
  \<open>FullCatalogCrawler_crawl\<close>.
\<close>

theorem bounded_concurrency:
  "1 \<le> max_workers \<longrightarrow>
     (loop_visits (handle_result L fetch) max_workers (sched, initial_state root normalized) c \<longrightarrow>
        int (length (futures (snd c))) \<le> max_workers
        \<and> int (length (futures (dispatch max_workers (snd c)))) \<le> max_workers)
     \<and> (loop_visits (full_handle_result L ffetch) max_workers
            (sched, initial_state froot normalized) c' \<longrightarrow>
        int (length (futures (snd c'))) \<le> max_workers
        \<and> int (length (futures (dispatch max_workers (snd c')))) \<le> max_workers)"
proof (intro impI conjI)
  assume m: "1 \<le> max_workers"
  {
    assume v: "loop_visits (handle_result L fetch) max_workers
        (sched, initial_state root normalized) c"
    show a: "int (length (futures (snd c))) \<le> max_workers"
    proof (rule loop_visits_bound [OF _ _ v])
      show "\<And>n s s'. handle_result L fetch n s = Inr s' \<Longrightarrow> futures s' = futures s"
        by (rule handle_result_futures)
      show "int (length (futures (snd (sched, initial_state root normalized)))) \<le> max_workers"
        using m by (simp add: initial_state_def)
    qed
    then show "int (length (futures (dispatch max_workers (snd c)))) \<le> max_workers"
      by (rule dispatch_bound)
  }
  {
    assume v: "loop_visits (full_handle_result L ffetch) max_workers
            (sched, initial_state froot normalized) c'"
    show a: "int (length (futures (snd c'))) \<le> max_workers"
    proof (rule loop_visits_bound [OF _ _ v])
      show "\<And>n s s'. full_handle_result L ffetch n s = Inr s' \<Longrightarrow> futures s' = futures s"
        by (rule full_handle_result_futures)
      show "int (length (futures (snd (sched, initial_state froot normalized)))) \<le> max_workers"
        using m by (simp add: initial_state_def)
    qed
    then show "int (length (futures (dispatch max_workers (snd c')))) \<le> max_workers"
      by (rule dispatch_bound)
  }
qed

theorem bounded_concurrency_witness:
  "(1 :: int) \<le> 2
   \<and> loop_visits (handle_result lib0 example_site) 2
        ([[1, 0]], initial_state \<lparr>name = S ''Root'', url = S ''/c?id=0'', depth = 0,
            children = [], has_file_children = False\<rparr> (S ''/c?id=0''))
        ([], example_after_first_turn)
   \<and> length (futures (dispatch 2 example_after_first_turn)) = 2
   \<and> int (length (futures (dispatch 2 example_after_first_turn))) \<le> 2"
proof -
  let ?c0 = "([[1, 0]], initial_state \<lparr>name = S ''Root'', url = S ''/c?id=0'', depth = 0,
            children = [], has_file_children = False\<rparr> (S ''/c?id=0''))"
  have nf: "\<not> finished ?c0" by (simp add: finished_def initial_state_def)
  have b: "loop_body (handle_result lib0 example_site) 2 ?c0 = Inr ([], example_after_first_turn)"
    by code_simp
  have v: "loop_visits (handle_result lib0 example_site) 2 ?c0 ([], example_after_first_turn)"
    using visits_start nf b by (rule visits_turn)
  have l: "length (futures (dispatch 2 example_after_first_turn)) = 2" by code_simp
  have one: "(1 :: int) \<le> 2" by simp
  from bounded_concurrency [rule_format, OF one, THEN conjunct1, rule_format, OF v] v l one
  show ?thesis by simp
qed

lemma crawl_loop_returns:
  assumes mw: "1 \<le> mw"
    and disp: "\<And>s. P s \<Longrightarrow> P (dispatch mw s) \<and> \<mu> (dispatch mw s) = (\<mu> s :: nat)"
    and step: "\<And>f n s s'. P s \<Longrightarrow> map_of (futures s) f = Some n
     \<Longrightarrow> handle n (s\<lparr>futures := filter (\<lambda>(k, v). k \<noteq> f) (futures s)\<rparr>) = Inr s'
     \<Longrightarrow> P s' \<and> \<mu> s' < \<mu> s"
    and init: "P (snd c)"
  shows "\<exists>r. crawl_loop handle mw c = Some r"
proof (rule crawl_loop_terminates [where P = "\<lambda>c. P (snd c)" and m = "\<lambda>c. \<mu> (snd c)"])
  fix c c'
  assume p: "P (snd c)" and nf: "\<not> finished c" and b: "loop_body handle mw c = Inr c'"
  let ?s1 = "dispatch mw (snd c)"
  let ?done = "wait_first_completed (map fst (futures ?s1))
                 (case fst c of [] \<Rightarrow> [] | choice # x \<Rightarrow> choice)"
  from nf have "queue (snd c) \<noteq> [] \<or> futures (snd c) \<noteq> []" by (simp add: finished_def)
  from dispatch_progress [OF mw this] have ne: "futures ?s1 \<noteq> []" .
  then have "map fst (futures ?s1) \<noteq> []" by simp
  from wait_first_completed_ok [OF this] have dne: "?done \<noteq> []" by simp
  from b ne have d: "drain handle ?done ?s1 = Inr (snd c')"
    by (auto simp: loop_body_def Let_def split: sum.splits)
  from disp [OF p] have p1: "P ?s1" and m1: "\<mu> ?s1 = \<mu> (snd c)" by simp_all
  have "P (snd c') \<and> (if ?done = [] then \<mu> (snd c') \<le> \<mu> ?s1 else \<mu> (snd c') < \<mu> ?s1)"
    using p1 d by (rule drain_measure [where P = P and m = \<mu> and handle = handle, rotated])
      (rule step)
  with dne m1 show "P (snd c') \<and> \<mu> (snd c') < \<mu> (snd c)" by simp
qed (rule init)

lemma dispatch_work_left: "work_left b (dispatch m s) = work_left b s"
proof -
  have "length (map snd (futures (dispatch m s)) @ queue (dispatch m s))
      = length (map snd (futures s) @ queue s)"
    by (simp only: dispatch_pending)
  then show ?thesis by (simp add: work_left_def dispatch_frame)
qed

lemma work_left_decreases:
  assumes "length (seen s) \<le> b" and "length (seen s') \<le> b"
    and "length (seen s') + length (queue s) = length (seen s) + length (queue s')"
    and "length (futures s') < length (futures s)"
  shows "work_left b s' < work_left b s"
  using assms by (simp add: work_left_def)

lemma main_seen_bound:
  assumes inv: "main_inv L fetch s" and sub: "url ` set (nodes s) \<subseteq> R"
  shows "set (seen s) \<subseteq> identities L R"
proof
  fix n assume "n \<in> set (seen s)"
  then obtain i where i: "i < length (seen s)" and n: "seen s ! i = n"
    by (auto simp: in_set_conv_nth)
  from inv have eq: "map (\<lambda>n. normalize_url L (url n)) (nodes s) = map Inr (seen s)"
    by (simp add: main_inv_def)
  from eq have len: "length (nodes s) = length (seen s)" by (rule map_eq_imp_length_eq)
  from eq i len have "map (\<lambda>n. normalize_url L (url n)) (nodes s) ! i = map Inr (seen s) ! i"
    by simp
  with i len n have "normalize_url L (url (nodes s ! i)) = Inr n" by simp
  moreover from i len sub have "url (nodes s ! i) \<in> R" by auto
  ultimately show "n \<in> identities L R" by (auto simp: identities_def)
qed

lemma seen_length_bound:
  assumes "finite I" and "distinct xs" and "set xs \<subseteq> I"
  shows "length xs \<le> card I"
  using assms by (metis card_mono distinct_card)

lemma links_reachable:
  "u \<in> reachable fetch root_url \<Longrightarrow> links fetch u \<subseteq> reachable fetch root_url"
  by (auto simp: links_def intro: reach_link)

lemma main_reach_step:
  assumes p: "main_reach L fetch root_url s" and pop: "map_of (futures s) f = Some n"
    and run: "handle_result L fetch n (s\<lparr>futures := filter (\<lambda>(k, v). k \<noteq> f) (futures s)\<rparr>) = Inr s'"
  shows "main_reach L fetch root_url s'"
proof -
  from p have inv: "main_inv L fetch s" and sub: "url ` set (nodes s) \<subseteq> reachable fetch root_url"
    by (simp_all add: main_reach_def)
  note st = main_step_full [OF inv pop run]
  from st have n: "n < length (nodes s)" by simp
  with sub have "url (nodes s ! n) \<in> reachable fetch root_url" by auto
  from links_reachable [OF this] sub st
  have "url ` set (nodes s') \<subseteq> reachable fetch root_url" by blast
  with st show ?thesis by (simp add: main_reach_def)
qed

lemma main_reach_measure:
  assumes fin: "finite (identities L (reachable fetch root_url))"
    and p: "main_reach L fetch root_url s" and pop: "map_of (futures s) f = Some n"
    and run: "handle_result L fetch n (s\<lparr>futures := filter (\<lambda>(k, v). k \<noteq> f) (futures s)\<rparr>) = Inr s'"
  shows "main_reach L fetch root_url s'
     \<and> work_left (card (identities L (reachable fetch root_url))) s'
         < work_left (card (identities L (reachable fetch root_url))) s"
proof -
  let ?I = "identities L (reachable fetch root_url)"
  from main_reach_step [OF p pop run] have p': "main_reach L fetch root_url s'" .
  have b: "length (seen t) \<le> card ?I" if "main_reach L fetch root_url t" for t
  proof -
    from that have i: "main_inv L fetch t"
      and u: "url ` set (nodes t) \<subseteq> reachable fetch root_url"
      by (simp_all add: main_reach_def)
    from i have "distinct (seen t)" by (simp add: main_inv_def)
    moreover from i u have "set (seen t) \<subseteq> ?I" by (rule main_seen_bound)
    ultimately have "set (seen t) \<subseteq> ?I" "distinct (seen t)" by simp_all
    with fin show ?thesis by (simp add: seen_length_bound)
  qed
  from p have inv: "main_inv L fetch s" by (simp add: main_reach_def)
  note st = main_step_full [OF inv pop run]
  from st have l1: "length (futures s') < length (futures s)"
    and l2: "length (seen s') + length (queue s) = length (seen s) + length (queue s')"
    by blast+
  have "work_left (card ?I) s' < work_left (card ?I) s"
    using b [OF p] b [OF p'] l2 l1 by (rule work_left_decreases)
  with p' show ?thesis by simp
qed

lemma main_reach_dispatch:
  "main_reach L fetch root_url s \<Longrightarrow> main_reach L fetch root_url (dispatch m s)"
  by (simp add: main_reach_def dispatch_main_inv dispatch_frame)

lemma main_reach_initial:
  "normalize_url L root_url = Inr n \<Longrightarrow>
   main_reach L fetch root_url (initial_state \<lparr>name = root_name, url = root_url, depth = 0,
      children = [], has_file_children = False\<rparr> n)"
  using initial_main_inv [of L root_url n fetch root_name]
  by (simp add: main_reach_def) (simp add: initial_state_def reach_root)

lemma crawl_main_returns:
  assumes mw: "1 \<le> m" and fin: "finite (identities L (reachable fetch root_url))"
  shows "\<exists>r. CatalogCrawler_crawl L fetch m sched root_name root_url = Some r"
proof (cases "normalize_url L root_url")
  case (Inl e)
  then show ?thesis by (simp add: CatalogCrawler_crawl_def)
next
  case (Inr n)
  let ?root = "\<lparr>name = root_name, url = root_url, depth = 0, children = [],
                  has_file_children = False\<rparr>"
  have "\<exists>r. crawl_loop (handle_result L fetch) m (sched, initial_state ?root n) = Some r"
  proof (rule crawl_loop_returns [where P = "main_reach L fetch root_url"
        and \<mu> = "work_left (card (identities L (reachable fetch root_url)))", OF mw])
    fix s assume "main_reach L fetch root_url s"
    then show "main_reach L fetch root_url (dispatch m s)
       \<and> work_left (card (identities L (reachable fetch root_url))) (dispatch m s)
          = work_left (card (identities L (reachable fetch root_url))) s"
      by (simp add: main_reach_dispatch dispatch_work_left)
  next
    fix f k s s'
    assume "main_reach L fetch root_url s" "map_of (futures s) f = Some k"
      "handle_result L fetch k (s\<lparr>futures := filter (\<lambda>(k, v). k \<noteq> f) (futures s)\<rparr>) = Inr s'"
    with fin show "main_reach L fetch root_url s'
       \<and> work_left (card (identities L (reachable fetch root_url))) s'
          < work_left (card (identities L (reachable fetch root_url))) s"
      by (rule main_reach_measure)
  next
    show "main_reach L fetch root_url (snd (sched, initial_state ?root n))"
      using main_reach_initial [OF Inr] by simp
  qed
  with Inr mw show ?thesis by (simp add: CatalogCrawler_crawl_def)
qed

lemma crawl_main_reach:
  assumes run: "CatalogCrawler_crawl L fetch m sched root_name root_url = Some r"
  shows "case r of
      Inl e \<Rightarrow> (m \<le> 0 \<and> e = ValueError) \<or> (\<exists>u \<in> reachable fetch root_url. normalize_url L u = Inl e)
    | Inr s \<Rightarrow> main_reach L fetch root_url s \<and> queue s = [] \<and> futures s = []"
proof (cases "normalize_url L root_url")
  case (Inl e)
  with run have "r = Inl e" by (simp add: CatalogCrawler_crawl_def)
  with Inl show ?thesis by (auto intro: reach_root)
next
  case (Inr n)
  show ?thesis
  proof (cases "m \<le> 0")
    case True
    with run Inr show ?thesis by (auto simp: CatalogCrawler_crawl_def)
  next
    case False
    let ?root = "\<lparr>name = root_name, url = root_url, depth = 0, children = [],
                  has_file_children = False\<rparr>"
    let ?P = "main_reach L fetch root_url"
    let ?E = "\<lambda>e. \<exists>u \<in> reachable fetch root_url. normalize_url L u = Inl e"
    from run Inr False
    have loop: "crawl_loop (handle_result L fetch) m (sched, initial_state ?root n) = Some r"
      by (simp add: CatalogCrawler_crawl_def)
    have herr: "?E e" if p: "?P s" and pop: "map_of (futures s) f = Some k"
      and h: "handle_result L fetch k (s\<lparr>futures := filter (\<lambda>(k, v). k \<noteq> f) (futures s)\<rparr>) = Inl e"
      for f k s e
    proof (cases "fetch (url (nodes s ! k))")
      case (Inl exc)
      with h show ?thesis by (simp add: handle_result_def)
    next
      case (Inr es)
      with h obtain s1 where
        "add_children L k (filter (\<lambda>entry. entry_kind entry = S ''FOLDER'') es) s1 = Inl e"
        by (auto simp: handle_result_def Let_def)
      from add_children_error [OF this] Inr
      obtain u where u: "u \<in> links fetch (url (nodes s ! k))" and e: "normalize_url L u = Inl e"
        by (auto simp: links_def)
      from p have inv: "main_inv L fetch s"
        and sub: "url ` set (nodes s) \<subseteq> reachable fetch root_url"
        by (simp_all add: main_reach_def)
      from pop have "(f, k) \<in> set (futures s)" by (rule map_of_SomeD)
      then have "k \<in> set (pending s)" by (force simp: pending_def)
      with inv have "k < length (nodes s)" by (simp add: main_inv_def)
      with sub have "url (nodes s ! k) \<in> reachable fetch root_url" by auto
      from links_reachable [OF this] u e show ?thesis by auto
    qed
    have body: "?P (snd c')" if p: "?P (snd c)"
      and b: "loop_body (handle_result L fetch) m c = Inr c'" for c c'
    proof -
      let ?s1 = "dispatch m (snd c)"
      have i1: "?P ?s1" using p by (rule main_reach_dispatch)
      show ?thesis
      proof (cases "futures ?s1 = []")
        case True
        with b i1 show ?thesis by (auto simp: loop_body_def Let_def)
      next
        case False
        with b obtain fs where "drain (handle_result L fetch) fs ?s1 = Inr (snd c')"
          by (auto simp: loop_body_def Let_def split: sum.splits)
        with i1 show ?thesis
          by (rule drain_inv [where P = ?P, rotated]) (rule main_reach_step)
      qed
    qed
    have "case r of Inl e \<Rightarrow> ?E e | Inr s \<Rightarrow> ?P s \<and> queue s = [] \<and> futures s = []"
    proof (rule crawl_loop_result [where P = ?P and E = ?E, OF _ _ loop])
      show "?P (snd (sched, initial_state ?root n))"
        using main_reach_initial [OF Inr] by simp
    next
      fix c c' assume "?P (snd c)" "loop_body (handle_result L fetch) m c = Inr c'"
      then show "?P (snd c')" by (rule body)
    next
      fix c e assume p: "?P (snd c)" and b: "loop_body (handle_result L fetch) m c = Inl e"
      show "?E e"
      proof (rule loop_body_error [where P = ?P and handle = "handle_result L fetch",
            OF _ _ _ p b])
        fix f n s s'
        assume a: "?P s" "map_of (futures s) f = Some n"
          "handle_result L fetch n (s\<lparr>futures := filter (\<lambda>(k, v). k \<noteq> f) (futures s)\<rparr>) = Inr s'"
        from a(1) have inv: "main_inv L fetch s" by (simp add: main_reach_def)
        from main_step_full [OF inv a(2,3)] main_reach_step [OF a]
        show "?P s' \<and> futures s' = filter (\<lambda>(k, v). k \<noteq> f) (futures s)" by simp
      next
        fix f n s e
        assume "?P s" "map_of (futures s) f = Some n"
          "handle_result L fetch n (s\<lparr>futures := filter (\<lambda>(k, v). k \<noteq> f) (futures s)\<rparr>) = Inl e"
        then show "?E e" by (rule herr)
      next
        fix s assume "?P s"
        then show "?P (dispatch m s)" by (rule main_reach_dispatch)
      qed
    qed
    then show ?thesis by (cases r) auto
  qed
qed

lemma full_seen_bound:
  assumes inv: "full_inv L fetch s"
    and sub: "full_url ` (set (nodes s) \<inter> {x. full_kind x = S ''FOLDER''}) \<subseteq> R"
  shows "set (seen s) \<subseteq> identities L R"
proof
  fix n assume "n \<in> set (seen s)"
  then have "Some (Inr n) \<in> (\<lambda>n. Some (Inr n :: exn + pystr)) ` set (seen s)" by simp
  with inv have "Some (Inr n) \<in> set (ids L s)" by (simp add: full_inv_def)
  then obtain x where x: "x \<in> set (nodes s)" and e: "eid L (fstatic x) = Some (Inr n)"
    by (auto simp: ids_def)
  from e have "full_kind x = S ''FOLDER''" and "normalize_url L (full_url x) = Inr n"
    by (auto simp: eid_def fstatic_def split: if_splits)
  with x sub show "n \<in> identities L R" by (auto simp: identities_def)
qed

lemma full_links_reachable:
  "u \<in> full_reachable fetch root_url \<Longrightarrow> full_links fetch u \<subseteq> full_reachable fetch root_url"
  by (auto simp: full_links_def intro: full_reach_link)

lemma full_pending_folder:
  assumes inv: "full_inv L fetch s" and pop: "map_of (futures s) f = Some n"
  shows "n < length (nodes s) \<and> full_kind (nodes s ! n) = S ''FOLDER''"
proof -
  from pop have "(f, n) \<in> set (futures s)" by (rule map_of_SomeD)
  then have "n \<in> set (pending s)" by (force simp: pending_def)
  with inv have "own (ids L s) n" by (simp add: full_inv_def)
  then have "n < length (ids L s)" and z: "ids L s ! n \<noteq> None"
    by (simp_all add: own_def)
  then have n: "n < length (nodes s)" by (simp add: ids_def)
  from n have "ids L s ! n = eid L (fstatic (nodes s ! n))" by (simp add: ids_def)
  with z have "eid L (fstatic (nodes s ! n)) \<noteq> None" by simp
  then have "full_kind (nodes s ! n) = S ''FOLDER''"
    by (auto simp: eid_def fstatic_def split: if_splits)
  with n show ?thesis by simp
qed

lemma full_reach_step:
  assumes p: "full_reach L fetch root_url s" and pop: "map_of (futures s) f = Some n"
    and run: "full_handle_result L fetch n
                (s\<lparr>futures := filter (\<lambda>(k, v). k \<noteq> f) (futures s)\<rparr>) = Inr s'"
  shows "full_reach L fetch root_url s'"
proof -
  from p have inv: "full_inv L fetch s"
    and sub: "full_url ` (set (nodes s) \<inter> {x. full_kind x = S ''FOLDER''})
                \<subseteq> full_reachable fetch root_url"
    by (simp_all add: full_reach_def)
  note st = full_step_full [OF inv pop run]
  from full_pending_folder [OF inv pop] have "nodes s ! n \<in> set (nodes s)"
    and "full_kind (nodes s ! n) = S ''FOLDER''" by simp_all
  with sub have "full_url (nodes s ! n) \<in> full_reachable fetch root_url" by blast
  from full_links_reachable [OF this] sub st
  have "full_url ` (set (nodes s') \<inter> {x. full_kind x = S ''FOLDER''})
          \<subseteq> full_reachable fetch root_url" by blast
  with st show ?thesis by (simp add: full_reach_def)
qed

lemma full_reach_measure:
  assumes fin: "finite (identities L (full_reachable fetch root_url))"
    and p: "full_reach L fetch root_url s" and pop: "map_of (futures s) f = Some n"
    and run: "full_handle_result L fetch n
                (s\<lparr>futures := filter (\<lambda>(k, v). k \<noteq> f) (futures s)\<rparr>) = Inr s'"
  shows "full_reach L fetch root_url s'
     \<and> work_left (card (identities L (full_reachable fetch root_url))) s'
         < work_left (card (identities L (full_reachable fetch root_url))) s"
proof -
  let ?I = "identities L (full_reachable fetch root_url)"
  from full_reach_step [OF p pop run] have p': "full_reach L fetch root_url s'" .
  have b: "length (seen t) \<le> card ?I" if "full_reach L fetch root_url t" for t
  proof -
    from that have i: "full_inv L fetch t"
      and u: "full_url ` (set (nodes t) \<inter> {x. full_kind x = S ''FOLDER''})
                \<subseteq> full_reachable fetch root_url"
      by (simp_all add: full_reach_def)
    from i have "distinct (seen t)" by (simp add: full_inv_def)
    moreover from i u have "set (seen t) \<subseteq> ?I" by (rule full_seen_bound)
    ultimately show ?thesis using fin by (simp add: seen_length_bound)
  qed
  from p have inv: "full_inv L fetch s" by (simp add: full_reach_def)
  note st = full_step_full [OF inv pop run]
  from st have l1: "length (futures s') < length (futures s)"
    and l2: "length (seen s') + length (queue s) = length (seen s) + length (queue s')"
    by blast+
  have "work_left (card ?I) s' < work_left (card ?I) s"
    using b [OF p] b [OF p'] l2 l1 by (rule work_left_decreases)
  with p' show ?thesis by simp
qed

lemma full_reach_dispatch:
  "full_reach L fetch root_url s \<Longrightarrow> full_reach L fetch root_url (dispatch m s)"
  by (simp add: full_reach_def dispatch_full_inv dispatch_frame)

lemma full_reach_initial:
  "normalize_url L root_url = Inr n \<Longrightarrow>
   full_reach L fetch root_url (initial_state \<lparr>full_name = root_name, full_url = root_url,
      full_kind = S ''FOLDER'', full_children = []\<rparr> n)"
  using initial_full_inv [of L root_url n fetch root_name]
  by (simp add: full_reach_def) (simp add: initial_state_def full_reach_root)

lemma crawl_full_returns:
  assumes mw: "1 \<le> m" and fin: "finite (identities L (full_reachable fetch root_url))"
  shows "\<exists>r. FullCatalogCrawler_crawl L fetch m sched root_name root_url = Some r"
proof (cases "normalize_url L root_url")
  case (Inl e)
  then show ?thesis by (simp add: FullCatalogCrawler_crawl_def)
next
  case (Inr n)
  let ?root = "\<lparr>full_name = root_name, full_url = root_url,
      full_kind = S ''FOLDER'', full_children = []\<rparr>"
  have "\<exists>r. crawl_loop (full_handle_result L fetch) m (sched, initial_state ?root n) = Some r"
  proof (rule crawl_loop_returns [where P = "full_reach L fetch root_url"
        and \<mu> = "work_left (card (identities L (full_reachable fetch root_url)))", OF mw])
    fix s assume "full_reach L fetch root_url s"
    then show "full_reach L fetch root_url (dispatch m s)
       \<and> work_left (card (identities L (full_reachable fetch root_url))) (dispatch m s)
          = work_left (card (identities L (full_reachable fetch root_url))) s"
      by (simp add: full_reach_dispatch dispatch_work_left)
  next
    fix f k s s'
    assume "full_reach L fetch root_url s" "map_of (futures s) f = Some k"
      "full_handle_result L fetch k
         (s\<lparr>futures := filter (\<lambda>(k, v). k \<noteq> f) (futures s)\<rparr>) = Inr s'"
    with fin show "full_reach L fetch root_url s'
       \<and> work_left (card (identities L (full_reachable fetch root_url))) s'
          < work_left (card (identities L (full_reachable fetch root_url))) s"
      by (rule full_reach_measure)
  next
    show "full_reach L fetch root_url (snd (sched, initial_state ?root n))"
      using full_reach_initial [OF Inr] by simp
  qed
  with Inr mw show ?thesis by (simp add: FullCatalogCrawler_crawl_def)
qed

lemma crawl_full_reach:
  assumes run: "FullCatalogCrawler_crawl L fetch m sched root_name root_url = Some r"
  shows "case r of
      Inl e \<Rightarrow> (m \<le> 0 \<and> e = ValueError)
                 \<or> (\<exists>u \<in> full_reachable fetch root_url. normalize_url L u = Inl e)
    | Inr s \<Rightarrow> full_reach L fetch root_url s \<and> queue s = [] \<and> futures s = []"
proof (cases "normalize_url L root_url")
  case (Inl e)
  with run have "r = Inl e" by (simp add: FullCatalogCrawler_crawl_def)
  with Inl show ?thesis by (auto intro: full_reach_root)
next
  case (Inr n)
  show ?thesis
  proof (cases "m \<le> 0")
    case True
    with run Inr show ?thesis by (auto simp: FullCatalogCrawler_crawl_def)
  next
    case False
    let ?root = "\<lparr>full_name = root_name, full_url = root_url,
      full_kind = S ''FOLDER'', full_children = []\<rparr>"
    let ?P = "full_reach L fetch root_url"
    let ?E = "\<lambda>e. \<exists>u \<in> full_reachable fetch root_url. normalize_url L u = Inl e"
    from run Inr False
    have loop: "crawl_loop (full_handle_result L fetch) m (sched, initial_state ?root n) = Some r"
      by (simp add: FullCatalogCrawler_crawl_def)
    have herr: "?E e" if p: "?P s" and pop: "map_of (futures s) f = Some k"
      and h: "full_handle_result L fetch k
                (s\<lparr>futures := filter (\<lambda>(k, v). k \<noteq> f) (futures s)\<rparr>) = Inl e"
      for f k s e
    proof (cases "fetch (full_url (nodes s ! k))")
      case (Inl exc)
      with h show ?thesis by (simp add: full_handle_result_def)
    next
      case (Inr es)
      with h obtain s1 where "full_add_children L k es s1 = Inl e"
        by (auto simp: full_handle_result_def)
      from full_add_children_error [OF this] Inr
      obtain u where u: "u \<in> full_links fetch (full_url (nodes s ! k))"
        and e: "normalize_url L u = Inl e"
        by (auto simp: full_links_def)
      from p have inv: "full_inv L fetch s"
        and sub: "full_url ` (set (nodes s) \<inter> {x. full_kind x = S ''FOLDER''})
                    \<subseteq> full_reachable fetch root_url"
        by (simp_all add: full_reach_def)
      from full_pending_folder [OF inv pop] have "nodes s ! k \<in> set (nodes s)"
        and "full_kind (nodes s ! k) = S ''FOLDER''" by simp_all
      with sub have "full_url (nodes s ! k) \<in> full_reachable fetch root_url" by blast
      from full_links_reachable [OF this] u e show ?thesis by auto
    qed
    have body: "?P (snd c')" if p: "?P (snd c)"
      and b: "loop_body (full_handle_result L fetch) m c = Inr c'" for c c'
    proof -
      let ?s1 = "dispatch m (snd c)"
      have i1: "?P ?s1" using p by (rule full_reach_dispatch)
      show ?thesis
      proof (cases "futures ?s1 = []")
        case True
        with b i1 show ?thesis by (auto simp: loop_body_def Let_def)
      next
        case False
        with b obtain fs where "drain (full_handle_result L fetch) fs ?s1 = Inr (snd c')"
          by (auto simp: loop_body_def Let_def split: sum.splits)
        with i1 show ?thesis
          by (rule drain_inv [where P = ?P, rotated]) (rule full_reach_step)
      qed
    qed
    have "case r of Inl e \<Rightarrow> ?E e | Inr s \<Rightarrow> ?P s \<and> queue s = [] \<and> futures s = []"
    proof (rule crawl_loop_result [where P = ?P and E = ?E, OF _ _ loop])
      show "?P (snd (sched, initial_state ?root n))"
        using full_reach_initial [OF Inr] by simp
    next
      fix c c' assume "?P (snd c)" "loop_body (full_handle_result L fetch) m c = Inr c'"
      then show "?P (snd c')" by (rule body)
    next
      fix c e assume p: "?P (snd c)" and b: "loop_body (full_handle_result L fetch) m c = Inl e"
      show "?E e"
      proof (rule loop_body_error [where P = ?P and handle = "full_handle_result L fetch",
            OF _ _ _ p b])
        fix f n s s'
        assume a: "?P s" "map_of (futures s) f = Some n"
          "full_handle_result L fetch n
             (s\<lparr>futures := filter (\<lambda>(k, v). k \<noteq> f) (futures s)\<rparr>) = Inr s'"
        from a(1) have inv: "full_inv L fetch s" by (simp add: full_reach_def)
        from full_step_full [OF inv a(2,3)] full_reach_step [OF a]
        show "?P s' \<and> futures s' = filter (\<lambda>(k, v). k \<noteq> f) (futures s)" by simp
      next
        fix f n s e
        assume "?P s" "map_of (futures s) f = Some n"
          "full_handle_result L fetch n
             (s\<lparr>futures := filter (\<lambda>(k, v). k \<noteq> f) (futures s)\<rparr>) = Inl e"
        then show "?E e" by (rule herr)
      next
        fix s assume "?P s"
        then show "?P (dispatch m s)" by (rule full_reach_dispatch)
      qed
    qed
    then show ?thesis by (cases r) auto
  qed
qed

lemma finite_identities: "finite R \<Longrightarrow> finite (identities L R)"
proof -
  assume f: "finite R"
  have "identities L R \<subseteq> (\<lambda>u. case normalize_url L u of Inr n \<Rightarrow> n | Inl e \<Rightarrow> []) ` R"
    by (force simp: identities_def)
  with f show ?thesis by (meson finite_imageI finite_subset)
qed

lemma example_pages:
  "example_site (S ''/c?id=0'') =
     Inr [\<lparr>entry_name = S ''A'', entry_url = S ''/c?id=1'', entry_kind = S ''FOLDER''\<rparr>,
          \<lparr>entry_name = S ''B'', entry_url = S ''/p?id=7'', entry_kind = S ''FILE''\<rparr>,
          \<lparr>entry_name = S ''E'', entry_url = S ''/c?id=2'', entry_kind = S ''FOLDER''\<rparr>]"
  "example_site (S ''/c?id=1'') =
     Inr [\<lparr>entry_name = S ''C'', entry_url = S ''/c?id=0&limit=50'', entry_kind = S ''FOLDER''\<rparr>,
          \<lparr>entry_name = S ''D'', entry_url = S ''/p?id=8'', entry_kind = S ''FILE''\<rparr>]"
  "example_site (S ''/c?id=2'') = Inl (Raised (S ''503''))"
  "example_site (S ''/c?id=0&limit=50'') = Inl (Raised (S ''503''))"
  "S ''FILE'' \<noteq> S ''FOLDER''"
  by code_simp+

lemma example_normalized:
  "normalize_url lib0 (S ''/c?id=0'') = Inr (S ''/c?id=0'')"
  "normalize_url lib0 (S ''/c?id=1'') = Inr (S ''/c?id=1'')"
  "normalize_url lib0 (S ''/c?id=2'') = Inr (S ''/c?id=2'')"
  "normalize_url lib0 (S ''/c?id=0&limit=50'') = Inr (S ''/c?id=0'')"
  by code_simp+

lemma example_reachable:
  "reachable example_site (S ''/c?id=0'')
     = {S ''/c?id=0'', S ''/c?id=1'', S ''/c?id=2'', S ''/c?id=0&limit=50''}"
proof (intro equalityI subsetI)
  fix u assume "u \<in> reachable example_site (S ''/c?id=0'')"
  then show "u \<in> {S ''/c?id=0'', S ''/c?id=1'', S ''/c?id=2'', S ''/c?id=0&limit=50''}"
  proof (induction rule: reachable.induct)
    case reach_root
    then show ?case by simp
  next
    case (reach_link u es entry)
    from reach_link.IH consider "u = S ''/c?id=0''" | "u = S ''/c?id=1''" | "u = S ''/c?id=2''"
      | "u = S ''/c?id=0&limit=50''" by blast
    then show ?case
    proof cases
      case 1
      with reach_link.hyps(2-4) show ?thesis by (auto simp: example_pages)
    next
      case 2
      with reach_link.hyps(2-4) show ?thesis by (auto simp: example_pages)
    next
      case 3
      with reach_link.hyps(2) show ?thesis by (simp add: example_pages)
    next
      case 4
      with reach_link.hyps(2) show ?thesis by (simp add: example_pages)
    qed
  qed
next
  let ?R = "reachable example_site (S ''/c?id=0'')"
  have r0: "S ''/c?id=0'' \<in> ?R" by (rule reach_root)
  have r1: "S ''/c?id=1'' \<in> ?R"
    using reach_link [OF r0 example_pages(1), of "\<lparr>entry_name = S ''A'', entry_url = S ''/c?id=1'',
        entry_kind = S ''FOLDER''\<rparr>"] by simp
  have r2: "S ''/c?id=2'' \<in> ?R"
    using reach_link [OF r0 example_pages(1), of "\<lparr>entry_name = S ''E'', entry_url = S ''/c?id=2'',
        entry_kind = S ''FOLDER''\<rparr>"] by simp
  have r3: "S ''/c?id=0&limit=50'' \<in> ?R"
    using reach_link [OF r1 example_pages(2), of "\<lparr>entry_name = S ''C'',
        entry_url = S ''/c?id=0&limit=50'', entry_kind = S ''FOLDER''\<rparr>"] by simp
  fix u assume "u \<in> {S ''/c?id=0'', S ''/c?id=1'', S ''/c?id=2'', S ''/c?id=0&limit=50''}"
  with r0 r1 r2 r3 show "u \<in> ?R" by auto
qed

lemma example_full_pages:
  "example_site_full (S ''/c?id=0'') =
     Inr [(S ''A'', S ''/c?id=1'', S ''FOLDER''), (S ''B'', S ''/p?id=7'', S ''FILE''),
          (S ''E'', S ''/c?id=2'', S ''FOLDER'')]"
  "example_site_full (S ''/c?id=1'') =
     Inr [(S ''C'', S ''/c?id=0&limit=50'', S ''FOLDER''), (S ''D'', S ''/p?id=8'', S ''FILE'')]"
  "example_site_full (S ''/c?id=2'') = Inl (Raised (S ''503''))"
  "example_site_full (S ''/c?id=0&limit=50'') = Inl (Raised (S ''503''))"
  by (simp_all add: example_site_full_def example_pages)

lemma example_full_reachable:
  "full_reachable example_site_full (S ''/c?id=0'')
     = {S ''/c?id=0'', S ''/c?id=1'', S ''/c?id=2'', S ''/c?id=0&limit=50''}"
proof (intro equalityI subsetI)
  fix u assume "u \<in> full_reachable example_site_full (S ''/c?id=0'')"
  then show "u \<in> {S ''/c?id=0'', S ''/c?id=1'', S ''/c?id=2'', S ''/c?id=0&limit=50''}"
  proof (induction rule: full_reachable.induct)
    case full_reach_root
    then show ?case by simp
  next
    case (full_reach_link u es ename eurl)
    from full_reach_link.IH consider "u = S ''/c?id=0''" | "u = S ''/c?id=1''"
      | "u = S ''/c?id=2''" | "u = S ''/c?id=0&limit=50''" by blast
    then show ?case
    proof cases
      case 1
      with full_reach_link.hyps(2,3) example_pages(5) show ?thesis
        by (auto simp: example_full_pages)
    next
      case 2
      with full_reach_link.hyps(2,3) example_pages(5) show ?thesis
        by (auto simp: example_full_pages)
    next
      case 3
      with full_reach_link.hyps(2) show ?thesis by (simp add: example_full_pages)
    next
      case 4
      with full_reach_link.hyps(2) show ?thesis by (simp add: example_full_pages)
    qed
  qed
next
  let ?R = "full_reachable example_site_full (S ''/c?id=0'')"
  have r0: "S ''/c?id=0'' \<in> ?R" by (rule full_reach_root)
  have r1: "S ''/c?id=1'' \<in> ?R"
    using full_reach_link [OF r0 example_full_pages(1), of "S ''A'' " "S ''/c?id=1''"] by simp
  have r2: "S ''/c?id=2'' \<in> ?R"
    using full_reach_link [OF r0 example_full_pages(1), of "S ''E''" "S ''/c?id=2''"] by simp
  have r3: "S ''/c?id=0&limit=50'' \<in> ?R"
    using full_reach_link [OF r1 example_full_pages(2), of "S ''C''" "S ''/c?id=0&limit=50''"]
    by simp
  fix u assume "u \<in> {S ''/c?id=0'', S ''/c?id=1'', S ''/c?id=2'', S ''/c?id=0&limit=50''}"
  with r0 r1 r2 r3 show "u \<in> ?R" by auto
qed

lemma example_identities:
  "identities lib0 {S ''/c?id=0'', S ''/c?id=1'', S ''/c?id=2'', S ''/c?id=0&limit=50''}
     = {S ''/c?id=0'', S ''/c?id=1'', S ''/c?id=2''}"
  by (auto simp: identities_def example_normalized)

lemma full_step_counted:
  assumes "full_inv L fetch s \<and> submitted s + length (queue s) = length (seen s)"
    and "map_of (futures s) f = Some n"
    and "full_handle_result L fetch n
           (s\<lparr>futures := filter (\<lambda>(k, v). k \<noteq> f) (futures s)\<rparr>) = Inr s'"
  shows "full_inv L fetch s' \<and> submitted s' + length (queue s') = length (seen s')"
proof -
  from assms(1) have inv: "full_inv L fetch s"
    and c: "submitted s + length (queue s) = length (seen s)" by simp_all
  note st = full_step_full [OF inv assms(2,3)]
  then have inv': "full_inv L fetch s'" and sub: "submitted s' = submitted s"
    and l: "length (seen s') + length (queue s) = length (seen s) + length (queue s')"
    by blast+
  from c sub l have "submitted s' + length (queue s') = length (seen s')" by simp
  with inv' show ?thesis by simp
qed

lemma crawl_full_counted:
  assumes "FullCatalogCrawler_crawl L fetch m sched root_name root_url = Some (Inr s)"
  shows "submitted s = length (seen s)"
proof -
  let ?root = "\<lparr>full_name = root_name, full_url = root_url,
      full_kind = S ''FOLDER'', full_children = []\<rparr>"
  let ?P = "\<lambda>s. full_inv L fetch s \<and> submitted s + length (queue s) = length (seen s)"
  from assms obtain n where n: "normalize_url L root_url = Inr n" and m: "\<not> m \<le> 0"
    and run: "crawl_loop (full_handle_result L fetch) m (sched, initial_state ?root n)
                = Some (Inr s)"
    by (auto simp: FullCatalogCrawler_crawl_def Let_def split: sum.splits if_splits)
  have body: "?P (snd c')" if p: "?P (snd c)"
    and b: "loop_body (full_handle_result L fetch) m c = Inr c'" for c c'
  proof -
    let ?s1 = "dispatch m (snd c)"
    have i1: "?P ?s1"
      using p dispatch_submitted [of m "snd c"]
      by (simp add: dispatch_full_inv dispatch_frame)
    show ?thesis
    proof (cases "futures ?s1 = []")
      case True
      with b i1 show ?thesis by (auto simp: loop_body_def Let_def)
    next
      case False
      with b obtain fs where "drain (full_handle_result L fetch) fs ?s1 = Inr (snd c')"
        by (auto simp: loop_body_def Let_def split: sum.splits)
      with i1 show ?thesis
        by (rule drain_inv [where P = ?P, rotated]) (rule full_step_counted)
    qed
  qed
  have "case Inr s :: exn + FullCatalogNode crawl_state of Inl e \<Rightarrow> True
        | Inr s \<Rightarrow> ?P s \<and> queue s = [] \<and> futures s = []"
  proof (rule crawl_loop_result [where P = ?P and E = "\<lambda>e. True", OF _ _ run])
    show "?P (snd (sched, initial_state ?root n))"
      using initial_full_inv [OF n]
      by simp (simp add: initial_state_def)
  next
    fix c c' assume "?P (snd c)" "loop_body (full_handle_result L fetch) m c = Inr c'"
    then show "?P (snd c')" by (rule body)
  qed simp
  then have "(full_inv L fetch s \<and> submitted s + length (queue s) = length (seen s))
      \<and> queue s = [] \<and> futures s = []"
    unfolding sum.case .
  then have "queue s = []" and "submitted s + length (queue s) = length (seen s)"
    by blast+
  then show ?thesis by simp
qed

lemma crawl_main_final:
  assumes run: "CatalogCrawler_crawl L fetch m sched root_name root_url = Some (Inr s)"
  shows "queue s = [] \<and> futures s = [] \<and> distinct (seen s)
     \<and> set (seen s) \<subseteq> identities L (reachable fetch root_url)
     \<and> submitted s = length (seen s)"
proof -
  from crawl_main_reach [OF run] have r: "main_reach L fetch root_url s"
    and e: "queue s = []" "futures s = []" by simp_all
  from r have inv: "main_inv L fetch s"
    and sub: "url ` set (nodes s) \<subseteq> reachable fetch root_url"
    by (simp_all add: main_reach_def)
  from inv have "distinct (seen s)" by (simp add: main_inv_def)
  moreover from inv sub have "set (seen s) \<subseteq> identities L (reachable fetch root_url)"
    by (rule main_seen_bound)
  moreover from crawl_main_counted [OF run] main_inv_length [OF inv]
  have "submitted s = length (seen s)" by simp
  ultimately show ?thesis using e by simp
qed

lemma crawl_full_final:
  assumes run: "FullCatalogCrawler_crawl L fetch m sched root_name root_url = Some (Inr s)"
  shows "queue s = [] \<and> futures s = [] \<and> distinct (seen s)
     \<and> set (seen s) \<subseteq> identities L (full_reachable fetch root_url)
     \<and> submitted s = length (seen s)"
proof -
  from crawl_full_reach [OF run] have r: "full_reach L fetch root_url s"
    and e: "queue s = []" "futures s = []" by simp_all
  from r have inv: "full_inv L fetch s"
    and sub: "full_url ` (set (nodes s) \<inter> {x. full_kind x = S ''FOLDER''})
                \<subseteq> full_reachable fetch root_url"
    by (simp_all add: full_reach_def)
  from inv have "distinct (seen s)" by (simp add: full_inv_def)
  moreover from inv sub have "set (seen s) \<subseteq> identities L (full_reachable fetch root_url)"
    by (rule full_seen_bound)
  moreover from crawl_full_counted [OF run] have "submitted s = length (seen s)" .
  ultimately show ?thesis using e by simp
qed

text \<open>
  Claim C3. When \<open>max_workers \<ge> 1\<close> and the addresses reachable from the root, by the FOLDER
  entries of the pages of reachable addresses, have finitely many normalized identities,
  \<open>crawl\<close> of either crawler returns, whatever the scheduler completes first and whichever
  fetches fail. When it returns a tree the queue and the futures are empty, the
  identities in \<open>seen\<close> are pairwise different identities of reachable addresses (each was
  put in the queue once), and the number of submitted fetches is the number of
  identities in \<open>seen\<close> (each node taken from the queue was fetched once).
\<close>

theorem crawl_terminates:
  "(1 \<le> max_workers \<and> finite (identities L (reachable fetch root_url)) \<longrightarrow>
      (\<exists>r. CatalogCrawler_crawl L fetch max_workers sched root_name root_url = Some r
         \<and> (\<forall>s. r = Inr s \<longrightarrow>
               queue s = [] \<and> futures s = [] \<and> distinct (seen s)
               \<and> set (seen s) \<subseteq> identities L (reachable fetch root_url)
               \<and> submitted s = length (seen s))))
   \<and> (1 \<le> max_workers \<and> finite (identities L (full_reachable ffetch root_url)) \<longrightarrow>
      (\<exists>r. FullCatalogCrawler_crawl L ffetch max_workers sched root_name root_url = Some r
         \<and> (\<forall>t. r = Inr t \<longrightarrow>
               queue t = [] \<and> futures t = [] \<and> distinct (seen t)
               \<and> set (seen t) \<subseteq> identities L (full_reachable ffetch root_url)
               \<and> submitted t = length (seen t))))"
proof (intro conjI impI)
  assume "1 \<le> max_workers \<and> finite (identities L (reachable fetch root_url))"
  then obtain r where
    r: "CatalogCrawler_crawl L fetch max_workers sched root_name root_url = Some r"
    using crawl_main_returns [of max_workers L fetch root_url sched root_name] by blast
  have "\<forall>s. r = Inr s \<longrightarrow>
               queue s = [] \<and> futures s = [] \<and> distinct (seen s)
               \<and> set (seen s) \<subseteq> identities L (reachable fetch root_url)
               \<and> submitted s = length (seen s)"
    using r crawl_main_final [of L fetch max_workers sched root_name root_url] by blast
  with r show "\<exists>r. CatalogCrawler_crawl L fetch max_workers sched root_name root_url = Some r
         \<and> (\<forall>s. r = Inr s \<longrightarrow>
               queue s = [] \<and> futures s = [] \<and> distinct (seen s)
               \<and> set (seen s) \<subseteq> identities L (reachable fetch root_url)
               \<and> submitted s = length (seen s))" by blast
next
  assume "1 \<le> max_workers \<and> finite (identities L (full_reachable ffetch root_url))"
  then obtain r where
    r: "FullCatalogCrawler_crawl L ffetch max_workers sched root_name root_url = Some r"
    using crawl_full_returns [of max_workers L ffetch root_url sched root_name] by blast
  have "\<forall>t. r = Inr t \<longrightarrow>
               queue t = [] \<and> futures t = [] \<and> distinct (seen t)
               \<and> set (seen t) \<subseteq> identities L (full_reachable ffetch root_url)
               \<and> submitted t = length (seen t)"
    using r crawl_full_final [of L ffetch max_workers sched root_name root_url] by blast
  with r show "\<exists>r. FullCatalogCrawler_crawl L ffetch max_workers sched root_name root_url = Some r
         \<and> (\<forall>t. r = Inr t \<longrightarrow>
               queue t = [] \<and> futures t = [] \<and> distinct (seen t)
               \<and> set (seen t) \<subseteq> identities L (full_reachable ffetch root_url)
               \<and> submitted t = length (seen t))" by blast
qed

theorem crawl_terminates_witness:
  "(1 :: int) \<le> 2
   \<and> finite (identities lib0 (reachable example_site (S ''/c?id=0'')))
   \<and> finite (identities lib0 (full_reachable example_site_full (S ''/c?id=0'')))
   \<and> CatalogCrawler_crawl lib0 example_site 2 [[1, 0]] (S ''Root'') (S ''/c?id=0'')
       = Some (Inr example_result)
   \<and> FullCatalogCrawler_crawl lib0 example_site_full 2 [[1, 0]] (S ''Root'') (S ''/c?id=0'')
       = Some (Inr example_full_result)
   \<and> queue example_result = [] \<and> futures example_result = []
   \<and> submitted example_result = length (seen example_result)
   \<and> queue example_full_result = [] \<and> futures example_full_result = []
   \<and> submitted example_full_result = length (seen example_full_result)"
proof -
  have one: "(1 :: int) \<le> 2" by simp
  have f1: "finite (identities lib0 (reachable example_site (S ''/c?id=0'')))"
    by (rule finite_identities) (simp add: example_reachable)
  have f2: "finite (identities lib0 (full_reachable example_site_full (S ''/c?id=0'')))"
    by (rule finite_identities) (simp add: example_full_reachable)
  note t = crawl_terminates [of 2 lib0 example_site "S ''/c?id=0''" "[[1, 0]]" "S ''Root''"
      example_site_full]
  from t [THEN conjunct1, rule_format, OF conjI [OF one f1]] example_run
  have a: "queue example_result = [] \<and> futures example_result = []
   \<and> submitted example_result = length (seen example_result)" by auto
  from t [THEN conjunct2, rule_format, OF conjI [OF one f2]] example_full_run
  have b: "queue example_full_result = [] \<and> futures example_full_result = []
   \<and> submitted example_full_result = length (seen example_full_result)" by auto
  from one f1 f2 example_run example_full_run a b show ?thesis by blast
qed

lemma crawl_main_survives:
  assumes mw: "1 \<le> m" and fin: "finite (identities L (reachable fetch root_url))"
    and ok: "\<forall>u \<in> reachable fetch root_url. \<exists>n. normalize_url L u = Inr n"
  shows "\<exists>s. CatalogCrawler_crawl L fetch m sched root_name root_url = Some (Inr s)"
proof -
  from crawl_main_returns [OF mw fin] obtain r where
    r: "CatalogCrawler_crawl L fetch m sched root_name root_url = Some r" by blast
  show ?thesis
  proof (cases r)
    case (Inl e)
    with crawl_main_reach [OF r] mw ok show ?thesis by fastforce
  next
    case (Inr s)
    with r show ?thesis by blast
  qed
qed

lemma crawl_full_survives:
  assumes mw: "1 \<le> m" and fin: "finite (identities L (full_reachable fetch root_url))"
    and ok: "\<forall>u \<in> full_reachable fetch root_url. \<exists>n. normalize_url L u = Inr n"
  shows "\<exists>s. FullCatalogCrawler_crawl L fetch m sched root_name root_url = Some (Inr s)"
proof -
  from crawl_full_returns [OF mw fin] obtain r where
    r: "FullCatalogCrawler_crawl L fetch m sched root_name root_url = Some r" by blast
  show ?thesis
  proof (cases r)
    case (Inl e)
    with crawl_full_reach [OF r] mw ok show ?thesis by fastforce
  next
    case (Inr s)
    with r show ?thesis by blast
  qed
qed

text \<open>
  Claim C6. A failed fetch is not fatal to the crawl of either crawler.

  The crawl returns a tree whichever fetches fail (fourth and eighth part): when
  \<open>max_workers \<ge> 1\<close>, the reachable addresses have finitely many identities and
  \<open>normalize_url\<close> raises for none of them, \<open>crawl\<close> returns \<open>Some (Inr s)\<close>, for every
  fetcher and every order of completion. Nothing is assumed of the fetcher, so this
  covers every pattern of failing fetches.

  When the fetch of a node raises, the handler returns normally with the state unchanged
  but for the warning (first and fifth part). An exception leaves \<open>crawl\<close> only when
  \<open>normalize_url\<close> raises it for a reachable address, or when \<open>max_workers\<close> is not
  positive: no exception of a fetch is propagated (second and sixth part). In the
  returned tree a fetched node whose fetch failed has no children, its flag is false and
  the failure is among the warnings, and every node whose fetch succeeded is expanded
  from its page as if nothing had failed (third and seventh part). \<open>CatalogCrawler\<close>
  fetches every node, \<open>FullCatalogCrawler\<close> the first FOLDER node with each identity.
\<close>

theorem fetch_failure_is_local:
  "(fetch (url (nodes s0 ! node)) = Inl exc \<longrightarrow>
      handle_result L fetch node s0
        = Inr (s0\<lparr>warnings := warnings s0 @ [(url (nodes s0 ! node), exc)]\<rparr>))
   \<and> (CatalogCrawler_crawl L fetch max_workers sched root_name root_url = Some (Inl e) \<longrightarrow>
        (max_workers \<le> 0 \<and> e = ValueError)
        \<or> (\<exists>u \<in> reachable fetch root_url. normalize_url L u = Inl e))
   \<and> (CatalogCrawler_crawl L fetch max_workers sched root_name root_url = Some (Inr s) \<longrightarrow>
        (\<forall>j < length (nodes s).
           (\<forall>x. fetch (url (nodes s ! j)) = Inl x \<longrightarrow>
              children (nodes s ! j) = [] \<and> \<not> has_file_children (nodes s ! j)
              \<and> (url (nodes s ! j), x) \<in> set (warnings s))
           \<and> (\<forall>es. fetch (url (nodes s ! j)) = Inr es \<longrightarrow>
              has_file_children (nodes s ! j) = list_ex (\<lambda>entry. entry_kind entry = S ''FILE'') es
              \<and> (\<exists>a. j < a \<and> a \<le> length (nodes s)
                   \<and> map (\<lambda>c. (name (nodes s ! c), url (nodes s ! c))) (children (nodes s ! j))
                      = map (\<lambda>e. (entry_name e, entry_url e))
                          (fresh_entries L (take a (seen s))
                             (filter (\<lambda>e. entry_kind e = S ''FOLDER'') es))))))
   \<and> (1 \<le> max_workers \<and> finite (identities L (reachable fetch root_url))
        \<and> (\<forall>u \<in> reachable fetch root_url. \<exists>n. normalize_url L u = Inr n) \<longrightarrow>
        (\<exists>s. CatalogCrawler_crawl L fetch max_workers sched root_name root_url = Some (Inr s)))
   \<and> (ffetch (full_url (nodes t0 ! node')) = Inl exc' \<longrightarrow>
        full_handle_result L ffetch node' t0
          = Inr (t0\<lparr>warnings := warnings t0 @ [(full_url (nodes t0 ! node'), exc')]\<rparr>))
   \<and> (FullCatalogCrawler_crawl L ffetch max_workers sched root_name root_url = Some (Inl e') \<longrightarrow>
        (max_workers \<le> 0 \<and> e' = ValueError)
        \<or> (\<exists>u \<in> full_reachable ffetch root_url. normalize_url L u = Inl e'))
   \<and> (FullCatalogCrawler_crawl L ffetch max_workers sched root_name root_url = Some (Inr t) \<longrightarrow>
        (\<forall>j < length (nodes t). first_occurrence L t j \<longrightarrow>
           (\<forall>x. ffetch (full_url (nodes t ! j)) = Inl x \<longrightarrow>
              full_children (nodes t ! j) = []
              \<and> (full_url (nodes t ! j), x) \<in> set (warnings t))
           \<and> (\<forall>es. ffetch (full_url (nodes t ! j)) = Inr es \<longrightarrow>
              map (\<lambda>c. (full_name (nodes t ! c), full_url (nodes t ! c), full_kind (nodes t ! c)))
                (full_children (nodes t ! j)) = es)))
   \<and> (1 \<le> max_workers \<and> finite (identities L (full_reachable ffetch root_url))
        \<and> (\<forall>u \<in> full_reachable ffetch root_url. \<exists>n. normalize_url L u = Inr n) \<longrightarrow>
        (\<exists>t. FullCatalogCrawler_crawl L ffetch max_workers sched root_name root_url
               = Some (Inr t)))"
proof -
  have a1: "fetch (url (nodes s0 ! node)) = Inl exc \<longrightarrow>
      handle_result L fetch node s0
        = Inr (s0\<lparr>warnings := warnings s0 @ [(url (nodes s0 ! node), exc)]\<rparr>)"
    by (simp add: handle_result_def)
  have a2: "CatalogCrawler_crawl L fetch max_workers sched root_name root_url = Some (Inl e) \<longrightarrow>
        (max_workers \<le> 0 \<and> e = ValueError)
        \<or> (\<exists>u \<in> reachable fetch root_url. normalize_url L u = Inl e)"
    using crawl_main_reach [of L fetch max_workers sched root_name root_url "Inl e"] by auto
  have a3: "CatalogCrawler_crawl L fetch max_workers sched root_name root_url = Some (Inr s) \<longrightarrow>
        (\<forall>j < length (nodes s).
           (\<forall>x. fetch (url (nodes s ! j)) = Inl x \<longrightarrow>
              children (nodes s ! j) = [] \<and> \<not> has_file_children (nodes s ! j)
              \<and> (url (nodes s ! j), x) \<in> set (warnings s))
           \<and> (\<forall>es. fetch (url (nodes s ! j)) = Inr es \<longrightarrow>
              has_file_children (nodes s ! j) = list_ex (\<lambda>entry. entry_kind entry = S ''FILE'') es
              \<and> (\<exists>a. j < a \<and> a \<le> length (nodes s)
                   \<and> map (\<lambda>c. (name (nodes s ! c), url (nodes s ! c))) (children (nodes s ! j))
                      = map (\<lambda>e. (entry_name e, entry_url e))
                          (fresh_entries L (take a (seen s))
                             (filter (\<lambda>e. entry_kind e = S ''FOLDER'') es)))))"
  proof (intro impI allI conjI)
    fix j x
    assume run: "CatalogCrawler_crawl L fetch max_workers sched root_name root_url = Some (Inr s)"
      and j: "j < length (nodes s)" and f: "fetch (url (nodes s ! j)) = Inl x"
    from main_final [OF run j] f
    show "children (nodes s ! j) = []" "\<not> has_file_children (nodes s ! j)"
      "(url (nodes s ! j), x) \<in> set (warnings s)"
      by (simp_all add: expanded_def)
  next
    fix j es
    assume run: "CatalogCrawler_crawl L fetch max_workers sched root_name root_url = Some (Inr s)"
      and j: "j < length (nodes s)" and f: "fetch (url (nodes s ! j)) = Inr es"
    from main_final [OF run j] f
    show "has_file_children (nodes s ! j) = list_ex (\<lambda>entry. entry_kind entry = S ''FILE'') es"
      by (simp add: expanded_def)
    from main_children [OF run j f]
    show "\<exists>a. j < a \<and> a \<le> length (nodes s)
                   \<and> map (\<lambda>c. (name (nodes s ! c), url (nodes s ! c))) (children (nodes s ! j))
                      = map (\<lambda>e. (entry_name e, entry_url e))
                          (fresh_entries L (take a (seen s))
                             (filter (\<lambda>e. entry_kind e = S ''FOLDER'') es))"
      by simp
  qed
  have a4: "ffetch (full_url (nodes t0 ! node')) = Inl exc' \<longrightarrow>
        full_handle_result L ffetch node' t0
          = Inr (t0\<lparr>warnings := warnings t0 @ [(full_url (nodes t0 ! node'), exc')]\<rparr>)"
    by (simp add: full_handle_result_def)
  have a5: "FullCatalogCrawler_crawl L ffetch max_workers sched root_name root_url = Some (Inl e') \<longrightarrow>
        (max_workers \<le> 0 \<and> e' = ValueError)
        \<or> (\<exists>u \<in> full_reachable ffetch root_url. normalize_url L u = Inl e')"
    using crawl_full_reach [of L ffetch max_workers sched root_name root_url "Inl e'"] by auto
  have a6: "FullCatalogCrawler_crawl L ffetch max_workers sched root_name root_url = Some (Inr t) \<longrightarrow>
        (\<forall>j < length (nodes t). first_occurrence L t j \<longrightarrow>
           (\<forall>x. ffetch (full_url (nodes t ! j)) = Inl x \<longrightarrow>
              full_children (nodes t ! j) = []
              \<and> (full_url (nodes t ! j), x) \<in> set (warnings t))
           \<and> (\<forall>es. ffetch (full_url (nodes t ! j)) = Inr es \<longrightarrow>
              map (\<lambda>c. (full_name (nodes t ! c), full_url (nodes t ! c), full_kind (nodes t ! c)))
                (full_children (nodes t ! j)) = es))"
  proof (intro impI allI conjI)
    fix j x
    assume run: "FullCatalogCrawler_crawl L ffetch max_workers sched root_name root_url = Some (Inr t)"
      and j: "j < length (nodes t)" and o: "first_occurrence L t j"
      and f: "ffetch (full_url (nodes t ! j)) = Inl x"
    from full_final [OF run j] o f
    show "full_children (nodes t ! j) = []" "(full_url (nodes t ! j), x) \<in> set (warnings t)"
      by (simp_all add: full_expanded_def)
  next
    fix j es
    assume run: "FullCatalogCrawler_crawl L ffetch max_workers sched root_name root_url = Some (Inr t)"
      and j: "j < length (nodes t)" and o: "first_occurrence L t j"
      and f: "ffetch (full_url (nodes t ! j)) = Inr es"
    from full_children_page [OF run j o f]
    show "map (\<lambda>c. (full_name (nodes t ! c), full_url (nodes t ! c), full_kind (nodes t ! c)))
                (full_children (nodes t ! j)) = es"
      by simp
  qed
  have a7: "1 \<le> max_workers \<and> finite (identities L (reachable fetch root_url))
        \<and> (\<forall>u \<in> reachable fetch root_url. \<exists>n. normalize_url L u = Inr n) \<longrightarrow>
        (\<exists>s. CatalogCrawler_crawl L fetch max_workers sched root_name root_url = Some (Inr s))"
    using crawl_main_survives [of max_workers L fetch root_url sched root_name] by blast
  have a8: "1 \<le> max_workers \<and> finite (identities L (full_reachable ffetch root_url))
        \<and> (\<forall>u \<in> full_reachable ffetch root_url. \<exists>n. normalize_url L u = Inr n) \<longrightarrow>
        (\<exists>t. FullCatalogCrawler_crawl L ffetch max_workers sched root_name root_url
               = Some (Inr t))"
    using crawl_full_survives [of max_workers L ffetch root_url sched root_name] by blast
  from a1 a2 a3 a7 a4 a5 a6 a8 show ?thesis by (intro conjI)
qed

theorem fetch_failure_is_local_witness:
  "(1 :: int) \<le> 2
   \<and> finite (identities lib0 (reachable example_site (S ''/c?id=0'')))
   \<and> (\<exists>s. CatalogCrawler_crawl lib0 example_site 2 [[1, 0]] (S ''Root'') (S ''/c?id=0'')
             = Some (Inr s))
   \<and> CatalogCrawler_crawl lib0 example_site 2 [[1, 0]] (S ''Root'') (S ''/c?id=0'')
        = Some (Inr example_result)
   \<and> example_site (url (nodes example_result ! 2)) = Inl (Raised (S ''503''))
   \<and> children (nodes example_result ! 2) = []
   \<and> \<not> has_file_children (nodes example_result ! 2)
   \<and> (url (nodes example_result ! 2), Raised (S ''503'')) \<in> set (warnings example_result)
   \<and> has_file_children (nodes example_result ! 1)
   \<and> finite (identities lib0 (full_reachable example_site_full (S ''/c?id=0'')))
   \<and> (\<exists>t. FullCatalogCrawler_crawl lib0 example_site_full 2 [[1, 0]] (S ''Root'')
             (S ''/c?id=0'') = Some (Inr t))
   \<and> FullCatalogCrawler_crawl lib0 example_site_full 2 [[1, 0]] (S ''Root'') (S ''/c?id=0'')
        = Some (Inr example_full_result)
   \<and> example_site_full (full_url (nodes example_full_result ! 3)) = Inl (Raised (S ''503''))
   \<and> full_children (nodes example_full_result ! 3) = []
   \<and> (full_url (nodes example_full_result ! 3), Raised (S ''503''))
        \<in> set (warnings example_full_result)
   \<and> map (\<lambda>c. (full_name (nodes example_full_result ! c), full_url (nodes example_full_result ! c),
                 full_kind (nodes example_full_result ! c)))
        (full_children (nodes example_full_result ! 1))
        = [(S ''C'', S ''/c?id=0&limit=50'', S ''FOLDER''), (S ''D'', S ''/p?id=8'', S ''FILE'')]"
proof -
  note t = fetch_failure_is_local [of example_site example_result 2 "Raised (S ''503'')" lib0 2
      "[[1, 0]]" "S ''Root''" "S ''/c?id=0''" ValueError example_result example_site_full
      example_full_result 3 "Raised (S ''503'')" ValueError example_full_result]
  have one: "(1 :: int) \<le> 2" by simp
  have f1: "finite (identities lib0 (reachable example_site (S ''/c?id=0'')))"
    by (rule finite_identities) (simp add: example_reachable)
  have f2: "finite (identities lib0 (full_reachable example_site_full (S ''/c?id=0'')))"
    by (rule finite_identities) (simp add: example_full_reachable)
  have n1: "\<forall>u \<in> reachable example_site (S ''/c?id=0''). \<exists>n. normalize_url lib0 u = Inr n"
    by (simp add: example_reachable example_normalized)
  have n2: "\<forall>u \<in> full_reachable example_site_full (S ''/c?id=0'').
              \<exists>n. normalize_url lib0 u = Inr n"
    by (simp add: example_full_reachable example_normalized)
  note m3 = t [THEN conjunct2, THEN conjunct2, THEN conjunct1, rule_format, OF example_run]
  note m4 = t [THEN conjunct2, THEN conjunct2, THEN conjunct2, THEN conjunct1, rule_format,
      OF conjI [OF one conjI [OF f1 n1]]]
  note m7 = t [THEN conjunct2, THEN conjunct2, THEN conjunct2, THEN conjunct2, THEN conjunct2,
      THEN conjunct2, THEN conjunct1, rule_format, OF example_full_run]
  note m8 = t [THEN conjunct2, THEN conjunct2, THEN conjunct2, THEN conjunct2, THEN conjunct2,
      THEN conjunct2, THEN conjunct2, rule_format, OF conjI [OF one conjI [OF f2 n2]]]
  have j: "2 < length (nodes example_result)" "1 < length (nodes example_result)"
    by (simp_all add: example_result_def)
  have f: "example_site (url (nodes example_result ! 2)) = Inl (Raised (S ''503''))"
    by code_simp
  have g: "example_site (url (nodes example_result ! 1))
      = Inr [\<lparr>entry_name = S ''C'', entry_url = S ''/c?id=0&limit=50'', entry_kind = S ''FOLDER''\<rparr>,
             \<lparr>entry_name = S ''D'', entry_url = S ''/p?id=8'', entry_kind = S ''FILE''\<rparr>]"
    by code_simp
  from m3 [OF j(2), THEN conjunct2, rule_format, OF g, THEN conjunct1]
  have h: "has_file_children (nodes example_result ! 1)" by simp
  have k: "3 < length (nodes example_full_result)" "1 < length (nodes example_full_result)"
    by (simp_all add: example_full_result_def)
  have o: "first_occurrence lib0 example_full_result 3"
    "first_occurrence lib0 example_full_result 1"
    unfolding first_occurrence_def by code_simp+
  have ff: "example_site_full (full_url (nodes example_full_result ! 3))
      = Inl (Raised (S ''503''))"
    by code_simp
  have pg: "example_site_full (full_url (nodes example_full_result ! 1))
      = Inr [(S ''C'', S ''/c?id=0&limit=50'', S ''FOLDER''), (S ''D'', S ''/p?id=8'', S ''FILE'')]"
    by code_simp
  from one f1 f2 m4 m8 example_run example_full_run f ff h
    m3 [OF j(1), THEN conjunct1, rule_format, OF f]
    m7 [OF k(1) o(1), THEN conjunct1, rule_format, OF ff]
    m7 [OF k(2) o(2), THEN conjunct2, rule_format, OF pg]
  show ?thesis by blast
qed

end
